theory Spec2Isabelle
  imports Main "HOL-Library.AList"
begin

section \<open>JavaScript strings\<close>

text \<open>
  A JavaScript string is modelled as a \<^typ>\<open>string\<close>: the list of its code units, of which
  HOL's \<^typ>\<open>char\<close> represents those below 256.  The methods the program calls on strings
  are written out here: \<^verbatim>\<open>s.startsWith(p)\<close>, \<^verbatim>\<open>s.endsWith(p)\<close>, \<^verbatim>\<open>s.includes(p)\<close>;
  \<^verbatim>\<open>s.slice(n)\<close> is \<^term>\<open>drop n s\<close> and \<^verbatim>\<open>s.slice(0, -1)\<close> is \<^term>\<open>butlast s\<close>.
\<close>

definition startsWith :: "string \<Rightarrow> string \<Rightarrow> bool" where
  "startsWith s p \<longleftrightarrow> take (length p) s = p"

definition endsWith :: "string \<Rightarrow> string \<Rightarrow> bool" where
  "endsWith s p \<longleftrightarrow> length p \<le> length s \<and> drop (length s - length p) s = p"

fun includesStr :: "string \<Rightarrow> string \<Rightarrow> bool" where
  "includesStr [] p = (p = [])"
| "includesStr (c # s) p = (startsWith (c # s) p \<or> includesStr s p)"

section \<open>The alias table loader (\<^verbatim>\<open>getPathsMap\<close>)\<close>

text \<open>
  \<^verbatim>\<open>tsconfig.config.compilerOptions?.paths\<close> is a JSON object from alias pattern to an array
  of target patterns.  It is modelled by the list of its entries in the order
  \<^verbatim>\<open>Object.entries\<close> yields them; \<^verbatim>\<open>None\<close> stands for an absent \<^verbatim>\<open>compilerOptions\<close> or
  \<^verbatim>\<open>paths\<close> (the source then iterates over \<^verbatim>\<open>{}\<close>).  The result of \<^verbatim>\<open>getTsconfig()\<close> is an
  option of that: \<^verbatim>\<open>None\<close> when no configuration file is found.

  \<^verbatim>\<open>PathsMap\<close> is a \<^verbatim>\<open>Record<string, string>\<close>.  The program reads it through
  \<^verbatim>\<open>Object.keys\<close>, \<^verbatim>\<open>Object.entries\<close> and by key, so its key order matters: it is an
  association list in insertion order, and the assignment \<^verbatim>\<open>pathsMap[alias] = aliasDir\<close> is
  \<^const>\<open>AList.update\<close> (an existing key keeps its place, a new key is appended).
\<close>

type_synonym Paths = "(string \<times> string list) list"
type_synonym Tsconfig = "Paths option"
type_synonym PathsMap = "(string \<times> string) list"

datatype ImportError =
    ExtensionNotFound string string
  | NoAliasFound string

datatype RunError =
    FailedToLoadTsconfig
  | SomethingWentWrong
  | FailedToTransform "(string \<times> ImportError list) list"
  | FoundExportDeclarations "(string \<times> string list) list"

text \<open>
  The body of the \<^verbatim>\<open>for\<close> loop of \<^verbatim>\<open>getPathsMap\<close>, one entry at a time.  The destructuring
  \<^verbatim>\<open>[alias, [aliasDir]]\<close> takes the first target of the array, \<^verbatim>\<open>undefined\<close> for an empty
  array, and \<^verbatim>\<open>!aliasDir?.endsWith("/*")\<close> then holds, so the entry is skipped.
\<close>

fun getPathsMap_loop :: "Paths \<Rightarrow> PathsMap \<Rightarrow> PathsMap" where
  "getPathsMap_loop [] pathsMap = pathsMap"
| "getPathsMap_loop ((alias, targets) # entries) pathsMap =
     (if \<not> endsWith alias ''/*'' then getPathsMap_loop entries pathsMap
      else case targets of
          [] \<Rightarrow> getPathsMap_loop entries pathsMap
        | aliasDir # _ \<Rightarrow>
            if \<not> endsWith aliasDir ''/*'' then getPathsMap_loop entries pathsMap
            else getPathsMap_loop entries
                   (AList.update (butlast alias) (butlast aliasDir) pathsMap))"

definition getPathsMap :: "Tsconfig option \<Rightarrow> RunError + PathsMap" where
  "getPathsMap tsconfig =
     (case tsconfig of
        None \<Rightarrow> Inl FailedToLoadTsconfig
      | Some paths \<Rightarrow> Inr (getPathsMap_loop (case paths of None \<Rightarrow> [] | Some ps \<Rightarrow> ps) []))"

section \<open>Node's \<^verbatim>\<open>path\<close> module (POSIX)\<close>

text \<open>
  The program calls \<^verbatim>\<open>path.dirname\<close>, \<^verbatim>\<open>path.resolve\<close>, \<^verbatim>\<open>path.relative\<close>, \<^verbatim>\<open>path.parse\<close>
  and \<^verbatim>\<open>path.format\<close> of Node's standard library.  They are library code, not code of this
  repository; the definitions below follow Node's POSIX implementation (\<^verbatim>\<open>lib/path.js\<close>).
  The current working directory, which \<^verbatim>\<open>path.resolve\<close> reads through \<^verbatim>\<open>process.cwd()\<close>,
  is the explicit parameter \<open>cwd\<close>; on POSIX it is an absolute path.
\<close>

record ParsedPath =
  root :: string
  dir :: string
  base :: string
  ext :: string
  name :: string

text \<open>\<^verbatim>\<open>s.split("/")\<close> and \<^verbatim>\<open>xs.join("/")\<close>.\<close>

fun splitSlash :: "string \<Rightarrow> string list" where
  "splitSlash [] = [[]]"
| "splitSlash (c # cs) =
     (if c = CHR ''/'' then [] # splitSlash cs
      else case splitSlash cs of
          [] \<Rightarrow> [[c]]
        | s # ss \<Rightarrow> (c # s) # ss)"

fun joinSlash :: "string list \<Rightarrow> string" where
  "joinSlash [] = []"
| "joinSlash [s] = s"
| "joinSlash (s # t # ss) = s @ ''/'' @ joinSlash (t # ss)"

text \<open>
  \<^verbatim>\<open>normalizeString(path, allowAboveRoot, "/", isPosixPathSeparator)\<close> walks the path once
  and keeps the result \<^verbatim>\<open>res\<close> as a string of segments joined by \<^verbatim>\<open>/\<close>.  Here \<^verbatim>\<open>res\<close> is the
  list of those segments and one step handles one segment of the path: an empty segment
  and \<^verbatim>\<open>.\<close> are dropped; \<^verbatim>\<open>..\<close> removes the last segment of \<^verbatim>\<open>res\<close> unless \<^verbatim>\<open>res\<close> is empty or
  ends in \<^verbatim>\<open>..\<close>, where it is appended if \<^verbatim>\<open>allowAboveRoot\<close> and dropped otherwise; any other
  segment is appended.
\<close>

definition normalizeStep :: "bool \<Rightarrow> string list \<Rightarrow> string \<Rightarrow> string list" where
  "normalizeStep allowAboveRoot res seg =
     (if seg = [] \<or> seg = ''.'' then res
      else if seg = ''..'' then
        (if res \<noteq> [] \<and> last res \<noteq> ''..'' then butlast res
         else if allowAboveRoot then res @ [''..'']
         else res)
      else res @ [seg])"

definition normalizeString :: "string \<Rightarrow> bool \<Rightarrow> string" where
  "normalizeString path allowAboveRoot =
     joinSlash (foldl (normalizeStep allowAboveRoot) [] (splitSlash path))"

text \<open>
  \<^verbatim>\<open>path.resolve(...args)\<close>: the arguments are read from the last to the first, then
  \<^verbatim>\<open>process.cwd()\<close>, until the path collected so far is absolute; empty arguments are
  skipped.  \<open>resolve_loop\<close> takes them in that order.
\<close>

fun resolve_loop :: "string list \<Rightarrow> string \<Rightarrow> string \<times> bool" where
  "resolve_loop [] resolvedPath = (resolvedPath, False)"
| "resolve_loop (path # paths) resolvedPath =
     (if path = [] then resolve_loop paths resolvedPath
      else if hd path = CHR ''/'' then (path @ ''/'' @ resolvedPath, True)
      else resolve_loop paths (path @ ''/'' @ resolvedPath))"

definition resolve :: "string \<Rightarrow> string list \<Rightarrow> string" where
  "resolve cwd args =
     (case resolve_loop (rev args @ [cwd]) [] of
        (resolvedPath, resolvedAbsolute) \<Rightarrow>
          let normalized = normalizeString resolvedPath (\<not> resolvedAbsolute)
          in if resolvedAbsolute then ''/'' @ normalized
             else if normalized \<noteq> [] then normalized
             else ''.'')"

text \<open>
  \<^verbatim>\<open>path.dirname\<close> and \<^verbatim>\<open>path.parse\<close> scan the path from its end: trailing slashes are
  skipped, the characters up to the next slash are the last component, and what stands
  before that slash is kept.  \<open>lastPart\<close> is that scan over the scanned region of the
  path: the text before the slash (\<open>None\<close> when the scan meets no such slash) and the
  component.
\<close>

definition lastPart :: "string \<Rightarrow> string option \<times> string" where
  "lastPart region =
     (let r = dropWhile (\<lambda>c. c = CHR ''/'') (rev region);
          part = rev (takeWhile (\<lambda>c. c \<noteq> CHR ''/'') r)
      in case dropWhile (\<lambda>c. c \<noteq> CHR ''/'') r of
           [] \<Rightarrow> (None, part)
         | _ # front \<Rightarrow> (Some (rev front), part))"

text \<open>\<^verbatim>\<open>path.dirname\<close> scans the indices from the last down to 1.\<close>

definition dirname :: "string \<Rightarrow> string" where
  "dirname path =
     (if path = [] then ''.''
      else let hasRoot = (hd path = CHR ''/'') in
        case fst (lastPart (tl path)) of
          None \<Rightarrow> if hasRoot then ''/'' else ''.''
        | Some front \<Rightarrow> if hasRoot \<and> front = [] then ''//'' else hd path # front)"

text \<open>
  The extension of a last component \<open>b\<close>, as \<^verbatim>\<open>path.parse\<close> computes it with \<^verbatim>\<open>startDot\<close>
  and \<^verbatim>\<open>preDotState\<close>: there is none when \<open>b\<close> has no dot, when its last dot is its first
  character, or when \<open>b\<close> is \<^verbatim>\<open>..\<close>; otherwise it runs from the last dot.  Node tests
  \<^verbatim>\<open>startDot === startPart + 1\<close> for the \<^verbatim>\<open>..\<close> case, which never holds for an absolute path
  with a single component (\<^verbatim>\<open>startPart\<close> is 0 and the component starts at 1): that is
  \<open>rootOnly\<close>.  The result is the pair \<^verbatim>\<open>(name, ext)\<close>.
\<close>

definition splitExt :: "bool \<Rightarrow> string \<Rightarrow> string \<times> string" where
  "splitExt rootOnly b =
     (let afterDot = takeWhile (\<lambda>c. c \<noteq> CHR ''.'') (rev b) in
      if length afterDot = length b then (b, [])
      else
        let startDot = length b - length afterDot - 1 in
        if startDot = 0 then (b, [])
        else if b = ''..'' \<and> \<not> rootOnly then (b, [])
        else (take startDot b, drop startDot b))"

text \<open>\<^verbatim>\<open>path.parse\<close> scans the indices from the last down to 1 for an absolute path, 0 otherwise.\<close>

definition parse :: "string \<Rightarrow> ParsedPath" where
  "parse path =
     (if path = [] then \<lparr>root = [], dir = [], base = [], ext = [], name = []\<rparr>
      else
        let isAbsolute = (hd path = CHR ''/'');
            rt = (if isAbsolute then ''/'' else []);
            (front, b) = lastPart (if isAbsolute then tl path else path);
            (nm, ex) = (if b = [] then ([], []) else splitExt (isAbsolute \<and> front = None) b);
            d = (case front of None \<Rightarrow> rt | Some pre \<Rightarrow> rt @ pre)
        in \<lparr>root = rt, dir = d, base = b, ext = ex, name = nm\<rparr>)"

definition formatExt :: "string \<Rightarrow> string" where
  "formatExt e = (if e = [] then [] else (if hd e = CHR ''.'' then [] else ''.'') @ e)"

definition format :: "ParsedPath \<Rightarrow> string" where
  "format pathObject =
     (let d = (if dir pathObject \<noteq> [] then dir pathObject else root pathObject);
          b = (if base pathObject \<noteq> [] then base pathObject
               else name pathObject @ formatExt (ext pathObject))
      in if d = [] then b
         else if d = root pathObject then d @ b
         else d @ ''/'' @ b)"

text \<open>
  \<^verbatim>\<open>path.relative(from, to)\<close> resolves both paths and compares them.  For the absolute,
  normalised paths that \<^verbatim>\<open>path.resolve\<close> returns, Node's character loop finds the longest
  common prefix that ends at a segment boundary, emits one \<^verbatim>\<open>..\<close> for each segment of
  \<^verbatim>\<open>from\<close> after it, and appends the rest of \<^verbatim>\<open>to\<close>; that is stated here on segments.
\<close>

definition segments :: "string \<Rightarrow> string list" where
  "segments path = filter (\<lambda>s. s \<noteq> []) (splitSlash path)"

fun commonPrefixLength :: "string list \<Rightarrow> string list \<Rightarrow> nat" where
  "commonPrefixLength (x # xs) (y # ys) = (if x = y then Suc (commonPrefixLength xs ys) else 0)"
| "commonPrefixLength _ _ = 0"

definition relative :: "string \<Rightarrow> string \<Rightarrow> string \<Rightarrow> string" where
  "relative cwd fromPath toPath =
     (if fromPath = toPath then []
      else
        let fromR = resolve cwd [fromPath]; toR = resolve cwd [toPath] in
        if fromR = toR then []
        else
          let fromSegs = segments fromR; toSegs = segments toR;
              n = commonPrefixLength fromSegs toSegs
          in joinSlash (replicate (length fromSegs - n) ''..'' @ drop n toSegs))"

section \<open>The import path resolver (\<^verbatim>\<open>resolveImportPath\<close>)\<close>

text \<open>
  \<^verbatim>\<open>Object.keys(pathsMap).sort((a, b) => b.length - a.length)\<close>: a stable sort by descending
  length.  In the loop, \<^verbatim>\<open>pathsMap[alias]\<close> is the lookup \<^const>\<open>map_of\<close>, and the guard
  \<^verbatim>\<open>if (!aliasDir) continue\<close> skips a missing or empty target.
\<close>

fun resolveImportPath_loop :: "string \<Rightarrow> string \<Rightarrow> PathsMap \<Rightarrow> string list \<Rightarrow> string option" where
  "resolveImportPath_loop cwd importPath pathsMap [] = None"
| "resolveImportPath_loop cwd importPath pathsMap (alias # sortedAliases) =
     (if \<not> startsWith importPath alias then resolveImportPath_loop cwd importPath pathsMap sortedAliases
      else case map_of pathsMap alias of
          None \<Rightarrow> resolveImportPath_loop cwd importPath pathsMap sortedAliases
        | Some aliasDir \<Rightarrow>
            if aliasDir = [] then resolveImportPath_loop cwd importPath pathsMap sortedAliases
            else
              let relativePath = drop (length alias) importPath
              in Some (resolve cwd [aliasDir, relativePath]))"

definition resolveImportPath :: "string \<Rightarrow> string \<Rightarrow> string \<Rightarrow> PathsMap \<Rightarrow> string" where
  "resolveImportPath cwd importPath filePath pathsMap =
     (let fileDir = dirname filePath;
          sortedAliases = sort_key (\<lambda>a. - int (length a)) (map fst pathsMap)
      in case resolveImportPath_loop cwd importPath pathsMap sortedAliases of
           Some resolved \<Rightarrow> resolved
         | None \<Rightarrow> resolve cwd [fileDir, importPath])"

section \<open>The extension resolver (\<^verbatim>\<open>getNewExtensionPathParts\<close>)\<close>

definition changeExtension :: "ParsedPath \<Rightarrow> string \<Rightarrow> ParsedPath" where
  "changeExtension importParts newExtension = importParts\<lparr>ext := newExtension, base := []\<rparr>"

definition ALLOWED_EXTENSIONS :: "string list" where
  "ALLOWED_EXTENSIONS = [''.ts'', ''.tsx'', ''.d.ts'']"

definition tsExtensionLookups :: "string list" where
  "tsExtensionLookups = [[], ''.js'', ''.jsx'', ''.ts'', ''.tsx'']"

text \<open>
  The \<^verbatim>\<open>for\<close> loop over \<^verbatim>\<open>ALLOWED_EXTENSIONS\<close>; \<open>existsSync\<close> is \<^verbatim>\<open>fss.existsSync\<close> on the disk of
  the run.  The result \<^verbatim>\<open>{ ext, base }\<close> is the pair \<open>(ext, base)\<close>, \<^verbatim>\<open>undefined\<close> is \<open>None\<close>.
\<close>

fun probeExtensions :: "(string \<Rightarrow> bool) \<Rightarrow> ParsedPath \<Rightarrow> string list \<Rightarrow> (string \<times> string) option" where
  "probeExtensions existsSync importParts [] = None"
| "probeExtensions existsSync importParts (allowedExtension # extensions) =
     (let targetPathParts = changeExtension importParts allowedExtension;
          targetPath = format targetPathParts
      in if existsSync targetPath then Some (ext targetPathParts, base targetPathParts)
         else probeExtensions existsSync importParts extensions)"

definition getNewExtensionPathParts :: "(string \<Rightarrow> bool) \<Rightarrow> ParsedPath \<Rightarrow> (string \<times> string) option" where
  "getNewExtensionPathParts existsSync importParts =
     (if ext importParts \<notin> set tsExtensionLookups then Some (ext importParts, base importParts)
      else if ext importParts \<in> set tsExtensionLookups
        then probeExtensions existsSync importParts ALLOWED_EXTENSIONS
      else None)"

section \<open>The alias rewriter (\<^verbatim>\<open>getAliasPathParts\<close>)\<close>

text \<open>The loop over \<^verbatim>\<open>Object.entries(pathsMap)\<close>, in the order of the table.\<close>

fun getAliasPathParts_loop :: "string \<Rightarrow> string \<Rightarrow> PathsMap \<Rightarrow> string option" where
  "getAliasPathParts_loop cwd importPath [] = None"
| "getAliasPathParts_loop cwd importPath ((alias, aliasDir) # entries) =
     (let relativeToAliasDir = relative cwd aliasDir importPath in
      if startsWith relativeToAliasDir ''..'' then getAliasPathParts_loop cwd importPath entries
      else
        let aliasImportParts = parse (alias @ relativeToAliasDir)
        in Some (dir aliasImportParts))"

definition getAliasPathParts :: "string \<Rightarrow> ParsedPath \<Rightarrow> PathsMap \<Rightarrow> string option" where
  "getAliasPathParts cwd importParts pathsMap =
     (let importPath = format importParts
      in getAliasPathParts_loop cwd importPath pathsMap)"

section \<open>The rewrite of one import (\<^verbatim>\<open>fixImports\<close>, the callback of \<^verbatim>\<open>content.replace\<close>)\<close>

record FixImportsOptions =
  write_opt :: bool
  importIgnoreStrings :: "string list"
  skipAlias :: bool

text \<open>
  The field \<open>write_opt\<close> is the source's \<^verbatim>\<open>write\<close>.  The two messages the callback pushes to
  \<^verbatim>\<open>importErrorsForFile\<close> are kept as values: \<open>ExtensionNotFound importPath target\<close> is
  \<^verbatim>\<open>skipped extension transform of 'importPath': target file not found (looking for
  'target.{ts,tsx,d.ts}')\<close> and \<open>NoAliasFound importPath\<close> is \<^verbatim>\<open>skipped transforming relative
  import path 'importPath': could not find appropriate alias\<close>.  An entry \<open>(importPath,
  newImportPath)\<close> of \<^verbatim>\<open>transformedImportsForFile\<close> is the line \<^verbatim>\<open>'importPath' ->
  'newImportPath'\<close>; the colours of \<^verbatim>\<open>picocolors\<close> are left out.
\<close>

type_synonym Change = "string \<times> string"

definition isRelativeImport :: "string \<Rightarrow> bool" where
  "isRelativeImport importPath \<longleftrightarrow> startsWith importPath ''./'' \<or> startsWith importPath ''../''"

definition isAliasImport :: "PathsMap \<Rightarrow> string \<Rightarrow> bool" where
  "isAliasImport pathsMap importPath \<longleftrightarrow>
     list_ex (\<lambda>alias. startsWith importPath alias) (map fst pathsMap)"

definition isIgnored :: "string list \<Rightarrow> string \<Rightarrow> bool" where
  "isIgnored ignoreStrings importPath \<longleftrightarrow>
     list_ex (\<lambda>ignoreString. includesStr importPath ignoreString) ignoreStrings"

text \<open>
  The extension step (source lines 142 to 149): the spread
  \<^verbatim>\<open>{ ...newImportParts, ...transformExtensionResult }\<close> overwrites \<^verbatim>\<open>ext\<close> and \<^verbatim>\<open>base\<close>.
\<close>

definition extensionStep ::
  "(string \<Rightarrow> bool) \<Rightarrow> string \<Rightarrow> ParsedPath \<Rightarrow> ParsedPath \<Rightarrow> ParsedPath \<times> ImportError list" where
  "extensionStep existsSync importPath resolvedImportParts newImportParts =
     (case getNewExtensionPathParts existsSync resolvedImportParts of
        Some (e, b) \<Rightarrow> (newImportParts\<lparr>ext := e, base := b\<rparr>, [])
      | None \<Rightarrow>
          (newImportParts,
           [ExtensionNotFound importPath (format (changeExtension resolvedImportParts []))]))"

text \<open>The alias step (source lines 151 to 158): the spread overwrites \<^verbatim>\<open>dir\<close>.\<close>

definition aliasStep ::
  "string \<Rightarrow> PathsMap \<Rightarrow> bool \<Rightarrow> string \<Rightarrow> ParsedPath \<Rightarrow> ParsedPath \<Rightarrow> ParsedPath \<times> ImportError list" where
  "aliasStep cwd pathsMap skip importPath resolvedImportParts newImportParts =
     (if isRelativeImport importPath \<and> \<not> skip then
        (case getAliasPathParts cwd resolvedImportParts pathsMap of
           Some d \<Rightarrow> (newImportParts\<lparr>dir := d\<rparr>, [])
         | None \<Rightarrow> (newImportParts, [NoAliasFound importPath]))
      else (newImportParts, []))"

text \<open>
  The callback up to \<^verbatim>\<open>const newImportPath = path.format(newImportParts)\<close>: \<open>None\<close> where it
  returns \<^verbatim>\<open>match\<close> early (the import is neither relative nor an alias import, or it is
  ignored), otherwise the final \<^verbatim>\<open>newImportParts\<close> and the errors pushed on the way.
\<close>

definition newImportPartsOf ::
  "string \<Rightarrow> (string \<Rightarrow> bool) \<Rightarrow> PathsMap \<Rightarrow> FixImportsOptions \<Rightarrow> string \<Rightarrow> string
     \<Rightarrow> (ParsedPath \<times> ImportError list) option" where
  "newImportPartsOf cwd existsSync pathsMap opts filePath importPath =
     (if \<not> (isRelativeImport importPath \<or> isAliasImport pathsMap importPath) then None
      else if isIgnored (importIgnoreStrings opts) importPath then None
      else
        let newImportParts = parse importPath;
            resolvedImportPath = resolveImportPath cwd importPath filePath pathsMap;
            resolvedImportParts = parse resolvedImportPath;
            (newImportParts, errs1) =
              extensionStep existsSync importPath resolvedImportParts newImportParts;
            (newImportParts, errs2) =
              aliasStep cwd pathsMap (skipAlias opts) importPath resolvedImportParts newImportParts
        in Some (newImportParts, errs1 @ errs2))"

text \<open>
  The specifier that stands in the output for \<open>importPath\<close>: \<^verbatim>\<open>newImportPath\<close>, or
  \<open>importPath\<close> itself where the callback returns \<^verbatim>\<open>match\<close> early.
\<close>

definition newImportPathOf ::
  "string \<Rightarrow> (string \<Rightarrow> bool) \<Rightarrow> PathsMap \<Rightarrow> FixImportsOptions \<Rightarrow> string \<Rightarrow> string \<Rightarrow> string" where
  "newImportPathOf cwd existsSync pathsMap opts filePath importPath =
     (case newImportPartsOf cwd existsSync pathsMap opts filePath importPath of
        None \<Rightarrow> importPath
      | Some (newImportParts, errs) \<Rightarrow> format newImportParts)"

text \<open>
  \<^verbatim>\<open>match.replace(importPath, newImportPath)\<close> replaces the first occurrence of the string
  \<^verbatim>\<open>importPath\<close> in \<^verbatim>\<open>match\<close>; in the replacement string JavaScript expands \<^verbatim>\<open>$$\<close>, \<^verbatim>\<open>$&\<close>,
  \<^verbatim>\<open>$`\<close> and \<^verbatim>\<open>$'\<close> (with a string pattern there are no capture groups, so \<^verbatim>\<open>$1\<close> and the
  like stay as they are).
\<close>

fun findFirst :: "string \<Rightarrow> string \<Rightarrow> nat option" where
  "findFirst [] pat = (if pat = [] then Some 0 else None)"
| "findFirst (c # s) pat =
     (if startsWith (c # s) pat then Some 0 else map_option Suc (findFirst s pat))"

fun getSubstitution :: "string \<Rightarrow> string \<Rightarrow> string \<Rightarrow> string \<Rightarrow> string" where
  "getSubstitution matched front rear [] = []"
| "getSubstitution matched front rear [c] = [c]"
| "getSubstitution matched front rear (c # d # r) =
     (if c = CHR ''$'' \<and> d = CHR ''$'' then CHR ''$'' # getSubstitution matched front rear r
      else if c = CHR ''$'' \<and> d = CHR ''&'' then matched @ getSubstitution matched front rear r
      else if c = CHR ''$'' \<and> d = CHR 0x60 then front @ getSubstitution matched front rear r
      else if c = CHR ''$'' \<and> d = CHR 0x27 then rear @ getSubstitution matched front rear r
      else c # getSubstitution matched front rear (d # r))"

definition replaceFirst :: "string \<Rightarrow> string \<Rightarrow> string \<Rightarrow> string" where
  "replaceFirst s pat replacement =
     (case findFirst s pat of
        None \<Rightarrow> s
      | Some i \<Rightarrow>
          let front = take i s; rear = drop (i + length pat) s
          in front @ getSubstitution pat front rear replacement @ rear)"

text \<open>
  The callback: the text that replaces \<^verbatim>\<open>match\<close>, with the per-file lists
  \<^verbatim>\<open>importErrorsForFile\<close> and \<^verbatim>\<open>transformedImportsForFile\<close> passed through.
\<close>

definition replaceImport ::
  "string \<Rightarrow> (string \<Rightarrow> bool) \<Rightarrow> PathsMap \<Rightarrow> FixImportsOptions \<Rightarrow> string
     \<Rightarrow> string \<Rightarrow> string \<Rightarrow> ImportError list \<times> Change list
     \<Rightarrow> string \<times> ImportError list \<times> Change list" where
  "replaceImport cwd existsSync pathsMap opts filePath match importPath acc =
     (case acc of (importErrorsForFile, transformedImportsForFile) \<Rightarrow>
        (case newImportPartsOf cwd existsSync pathsMap opts filePath importPath of
           None \<Rightarrow> (match, importErrorsForFile, transformedImportsForFile)
         | Some (newImportParts, errs) \<Rightarrow>
             let newImportPath = format newImportParts in
             if newImportPath = importPath
             then (match, importErrorsForFile @ errs, transformedImportsForFile)
             else (replaceFirst match importPath newImportPath,
                   importErrorsForFile @ errs,
                   transformedImportsForFile @ [(importPath, newImportPath)])))"

section \<open>Scanning a file (\<^verbatim>\<open>IMPORT_PATTERN\<close>)\<close>

text \<open>
  \<^verbatim>\<open>IMPORT_PATTERN = /(?:import|from)\s+['"]([^'"]+)['"]$/gm\<close>.  Matching at a position is
  deterministic: the keyword, the longest run of white space (one character at least)
  which a quote must follow, the longest run of characters that are not quotes (one at
  least) which a quote must follow, and then the end of the text or a line terminator.
  Of the characters \<^verbatim>\<open>\s\<close> and \<^verbatim>\<open>$\<close> accept, those below 256 are listed.
\<close>

definition isWhiteSpace :: "char \<Rightarrow> bool" where
  "isWhiteSpace c \<longleftrightarrow> c \<in> {CHR 0x09, CHR 0x0A, CHR 0x0B, CHR 0x0C, CHR 0x0D, CHR 0x20, CHR 0xA0}"

definition isLineTerminator :: "char \<Rightarrow> bool" where
  "isLineTerminator c \<longleftrightarrow> c = CHR 0x0A \<or> c = CHR 0x0D"

definition isQuote :: "char \<Rightarrow> bool" where
  "isQuote c \<longleftrightarrow> c = CHR 0x27 \<or> c = CHR 0x22"

definition matchKeyword :: "string \<Rightarrow> (string \<times> string) option" where
  "matchKeyword s =
     (if startsWith s ''import'' then Some (''import'', drop 6 s)
      else if startsWith s ''from'' then Some (''from'', drop 4 s)
      else None)"

text \<open>
  A match at the start of \<open>s\<close>: the text up to and including the opening quote, the
  captured import path, the closing quote, and the text after the match.
\<close>

definition matchImport :: "string \<Rightarrow> (string \<times> string \<times> char \<times> string) option" where
  "matchImport s =
     (case matchKeyword s of
        None \<Rightarrow> None
      | Some (keyword, s1) \<Rightarrow>
          let ws = takeWhile isWhiteSpace s1; s2 = dropWhile isWhiteSpace s1 in
          if ws = [] then None
          else case s2 of
              [] \<Rightarrow> None
            | q1 # s3 \<Rightarrow>
                if \<not> isQuote q1 then None
                else
                  let importPath = takeWhile (\<lambda>c. \<not> isQuote c) s3;
                      s4 = dropWhile (\<lambda>c. \<not> isQuote c) s3
                  in if importPath = [] then None
                     else case s4 of
                         [] \<Rightarrow> None
                       | q2 # s5 \<Rightarrow>
                           if s5 = [] \<or> isLineTerminator (hd s5)
                           then Some (keyword @ ws @ [q1], importPath, q2, s5)
                           else None)"

lemma matchKeyword_Some:
  assumes "matchKeyword s = Some (keyword, s1)"
  shows "s = keyword @ s1" and "keyword = ''import'' \<or> keyword = ''from''"
proof -
  have l: "length ''import'' = 6" "length ''from'' = 4" by simp_all
  have i: "s = ''import'' @ drop 6 s" if "startsWith s ''import''"
    using that append_take_drop_id [of 6 s] unfolding startsWith_def l by metis
  have f: "s = ''from'' @ drop 4 s" if "startsWith s ''from''"
    using that append_take_drop_id [of 4 s] unfolding startsWith_def l by metis
  from assms consider "startsWith s ''import''" "keyword = ''import''" "s1 = drop 6 s"
    | "startsWith s ''from''" "keyword = ''from''" "s1 = drop 4 s"
    by (auto simp: matchKeyword_def split: if_splits)
  then show "s = keyword @ s1"
    using i f by cases simp_all
  from assms show "keyword = ''import'' \<or> keyword = ''from''"
    by (auto simp: matchKeyword_def split: if_splits)
qed

lemma matchImport_Some:
  assumes "matchImport s = Some (opening, importPath, q2, rest)"
  shows "s = opening @ importPath @ q2 # rest"
proof -
  from assms obtain keyword s1 where k: "matchKeyword s = Some (keyword, s1)"
    by (auto simp: matchImport_def split: option.splits)
  define ws where "ws = takeWhile isWhiteSpace s1"
  define s2 where "s2 = dropWhile isWhiteSpace s1"
  have s1: "s1 = ws @ s2" by (simp add: ws_def s2_def)
  from assms k obtain q1 s3 where s2: "s2 = q1 # s3"
    by (auto simp: matchImport_def Let_def s2_def split: if_splits list.splits)
  define s4 where "s4 = dropWhile (\<lambda>c. \<not> isQuote c) s3"
  have s3: "s3 = takeWhile (\<lambda>c. \<not> isQuote c) s3 @ s4" by (simp add: s4_def)
  from assms k s2 have res: "opening = keyword @ ws @ [q1]"
      "importPath = takeWhile (\<lambda>c. \<not> isQuote c) s3" "s4 = q2 # rest"
    by (auto simp: matchImport_def Let_def s2_def ws_def s4_def split: if_splits list.splits)
  have "s = keyword @ ws @ q1 # s3"
    using matchKeyword_Some(1) [OF k] s1 s2 by simp
  also have "\<dots> = opening @ importPath @ q2 # rest"
    using s3 res by simp
  finally show ?thesis .
qed

lemma matchImport_rest_shorter:
  "matchImport s = Some (opening, importPath, q2, rest) \<Longrightarrow> length rest < length s"
  by (drule matchImport_Some) simp

text \<open>
  \<^verbatim>\<open>content.replace(IMPORT_PATTERN, callback)\<close> with the global flag: the text is scanned
  from the left; a match is replaced by what the callback returns and the scan goes on
  after the match; where there is no match the character is copied.
\<close>

function replaceAllImports ::
  "(string \<Rightarrow> string \<Rightarrow> 'a \<Rightarrow> string \<times> 'a) \<Rightarrow> string \<Rightarrow> 'a \<Rightarrow> string \<times> 'a" where
  "replaceAllImports callback [] acc = ([], acc)"
| "replaceAllImports callback (c # cs) acc =
     (case matchImport (c # cs) of
        None \<Rightarrow>
          (case replaceAllImports callback cs acc of (out, acc') \<Rightarrow> (c # out, acc'))
      | Some (opening, importPath, q2, rest) \<Rightarrow>
          (case callback (opening @ importPath @ [q2]) importPath acc of
             (replacement, acc1) \<Rightarrow>
               (case replaceAllImports callback rest acc1 of
                  (out, acc') \<Rightarrow> (replacement @ out, acc'))))"
  by pat_completeness auto
termination
  by (relation "measure (\<lambda>(callback, s, acc). length s)")
    (auto dest: matchImport_rest_shorter)

section \<open>The rewrite pass (\<^verbatim>\<open>fixImports\<close>)\<close>

text \<open>
  The disk of the run: \<open>existsSync\<close> is \<^verbatim>\<open>fss.existsSync\<close>, \<open>readFile\<close> is
  \<^verbatim>\<open>fs.readFile(filePath, "utf8")\<close> with \<open>None\<close> where it throws, and \<open>canWrite\<close> tells where
  \<^verbatim>\<open>fs.writeFile\<close> succeeds.  A write replaces the content of a file that was read, so it
  changes neither \<open>existsSync\<close> nor \<open>canWrite\<close>.  Files are told apart by the path string
  they are accessed with.
\<close>

record Disk =
  existsSync :: "string \<Rightarrow> bool"
  readFile :: "string \<Rightarrow> string option"
  canWrite :: "string \<Rightarrow> bool"

definition writeFile :: "Disk \<Rightarrow> string \<Rightarrow> string \<Rightarrow> Disk" where
  "writeFile disk filePath content = disk\<lparr>readFile := (readFile disk)(filePath \<mapsto> content)\<rparr>"

text \<open>
  The state of the pass: the disk, the two global lists, and whether the promise of some
  file has been rejected (a read or a write threw).  The source starts all files at once
  and awaits them together; the files are taken here one after the other, in the order
  of \<^verbatim>\<open>filePaths\<close>, and every file is processed whether or not another one failed.
\<close>

record FixState =
  disk :: Disk
  IMPORT_ERRORS :: "(string \<times> ImportError list) list"
  TRANSFORMED_IMPORTS :: "(string \<times> Change list) list"
  rejected :: bool

text \<open>The body of \<^verbatim>\<open>filePaths.map(async (filePath) => ...)\<close> for one file.\<close>

definition fixFile :: "string \<Rightarrow> PathsMap \<Rightarrow> FixImportsOptions \<Rightarrow> FixState \<Rightarrow> string \<Rightarrow> FixState" where
  "fixFile cwd pathsMap opts st filePath =
     (case readFile (disk st) filePath of
        None \<Rightarrow> st\<lparr>rejected := True\<rparr>
      | Some content \<Rightarrow>
          (case replaceAllImports
                  (replaceImport cwd (existsSync (disk st)) pathsMap opts filePath) content ([], []) of
             (transformedContent, importErrorsForFile, transformedImportsForFile) \<Rightarrow>
               let st1 = (if importErrorsForFile \<noteq> []
                          then st\<lparr>IMPORT_ERRORS := IMPORT_ERRORS st @ [(filePath, importErrorsForFile)]\<rparr>
                          else st);
                   st2 = (if transformedImportsForFile \<noteq> []
                          then st1\<lparr>TRANSFORMED_IMPORTS :=
                                     TRANSFORMED_IMPORTS st1 @ [(filePath, transformedImportsForFile)]\<rparr>
                          else st1)
               in if transformedContent = content then st2
                  else if write_opt opts then
                    (if canWrite (disk st2) filePath
                     then st2\<lparr>disk := writeFile (disk st2) filePath transformedContent\<rparr>
                     else st2\<lparr>rejected := True\<rparr>)
                  else st2))"

text \<open>
  \<^verbatim>\<open>fixImports\<close> returns the disk after the pass, the change log it prints (the list
  \<^verbatim>\<open>TRANSFORMED_IMPORTS\<close>, printed when it is not empty) and the error it returns, if any.
\<close>

definition fixImports ::
  "Tsconfig option \<Rightarrow> string \<Rightarrow> Disk \<Rightarrow> string list \<Rightarrow> FixImportsOptions
     \<Rightarrow> Disk \<times> (string \<times> Change list) list \<times> RunError option" where
  "fixImports tsconfig cwd disk0 filePaths opts =
     (case getPathsMap tsconfig of
        Inl e \<Rightarrow> (disk0, [], Some e)
      | Inr pathsMap \<Rightarrow>
          let st = foldl (fixFile cwd pathsMap opts)
                     \<lparr>disk = disk0, IMPORT_ERRORS = [], TRANSFORMED_IMPORTS = [], rejected = False\<rparr>
                     filePaths
          in (disk st, TRANSFORMED_IMPORTS st,
              if rejected st then Some SomethingWentWrong
              else if IMPORT_ERRORS st \<noteq> [] then Some (FailedToTransform (IMPORT_ERRORS st))
              else None))"

section \<open>The export scan (\<^verbatim>\<open>checkExports\<close>) and the exit code (\<^verbatim>\<open>main\<close>)\<close>

text \<open>
  The TypeScript parser is a parameter: \<open>exportDeclarations fileName sourceCode\<close> is the
  list of the texts of the \<^verbatim>\<open>ExportDeclaration\<close> nodes that the visit of
  \<^verbatim>\<open>ts.createSourceFile(fileName, sourceCode, ...)\<close> collects.  The state of the scan is the
  list \<^verbatim>\<open>EXPORT_ERRORS\<close> and whether the promise of some file has been rejected.
\<close>

definition checkFile ::
  "(string \<Rightarrow> string \<Rightarrow> string list) \<Rightarrow> Disk \<Rightarrow> (string \<times> string list) list \<times> bool \<Rightarrow> string
     \<Rightarrow> (string \<times> string list) list \<times> bool" where
  "checkFile exportDeclarations d st filePath =
     (case st of (EXPORT_ERRORS, rej) \<Rightarrow>
        let filePathParts = parse filePath in
        if name filePathParts = ''index'' then (EXPORT_ERRORS, rej)
        else case readFile d filePath of
            None \<Rightarrow> (EXPORT_ERRORS, True)
          | Some sourceCode \<Rightarrow>
              let decls = exportDeclarations (base filePathParts) sourceCode in
              if decls = [] then (EXPORT_ERRORS, rej)
              else (EXPORT_ERRORS @ [(filePath, decls)], rej))"

definition checkExports ::
  "(string \<Rightarrow> string \<Rightarrow> string list) \<Rightarrow> Disk \<Rightarrow> string list \<Rightarrow> RunError option" where
  "checkExports exportDeclarations d filePaths =
     (case foldl (checkFile exportDeclarations d) ([], False) filePaths of
        (EXPORT_ERRORS, rej) \<Rightarrow>
          if rej then Some SomethingWentWrong
          else if EXPORT_ERRORS \<noteq> [] then Some (FoundExportDeclarations EXPORT_ERRORS)
          else None)"

text \<open>
  \<^verbatim>\<open>tsImportFix\<close> after the command line is parsed and the files are listed: \<open>filePaths\<close> is
  the result of the glob and \<open>opts\<close> the options of the command line.  The export scan
  reads the disk the rewrite pass leaves.
\<close>

definition tsImportFix ::
  "Tsconfig option \<Rightarrow> string \<Rightarrow> (string \<Rightarrow> string \<Rightarrow> string list) \<Rightarrow> Disk \<Rightarrow> string list
     \<Rightarrow> FixImportsOptions \<Rightarrow> RunError list" where
  "tsImportFix tsconfig cwd exportDeclarations disk0 filePaths opts =
     (case fixImports tsconfig cwd disk0 filePaths opts of
        (disk1, changeLog, fixImportsResult) \<Rightarrow>
          let errors = (case fixImportsResult of None \<Rightarrow> [] | Some e \<Rightarrow> [e]);
              checkExportsResult = checkExports exportDeclarations disk1 filePaths;
              errors = errors @ (case checkExportsResult of None \<Rightarrow> [] | Some e \<Rightarrow> [e])
          in errors)"

definition main ::
  "Tsconfig option \<Rightarrow> string \<Rightarrow> (string \<Rightarrow> string \<Rightarrow> string list) \<Rightarrow> Disk \<Rightarrow> string list
     \<Rightarrow> FixImportsOptions \<Rightarrow> nat" where
  "main tsconfig cwd exportDeclarations disk0 filePaths opts =
     (let errors = tsImportFix tsconfig cwd exportDeclarations disk0 filePaths opts
      in if length errors = 0 then 0 else 1)"

section \<open>Notions used in the properties\<close>

text \<open>
  The entries that the loader accepts from a configuration: key and first target end in
  \<^verbatim>\<open>/*\<close>, and the final \<^verbatim>\<open>*\<close> is removed on each side.
\<close>

definition acceptedEntries :: "Paths \<Rightarrow> (string \<times> string) set" where
  "acceptedEntries entries =
     {(butlast k, butlast d) | k d ds.
        (k, d # ds) \<in> set entries \<and> endsWith k ''/*'' \<and> endsWith d ''/*''}"

text \<open>
  The resolver as the specification words it: among the entries of the alias table
  sorted by descending length of the key, the first whose key is a prefix of the
  specifier wins, and the rest of the specifier is resolved against its target
  directory; with no such entry the specifier is resolved against the directory of the
  containing file.
\<close>

definition resolveImportPath_spec :: "string \<Rightarrow> string \<Rightarrow> string \<Rightarrow> PathsMap \<Rightarrow> string" where
  "resolveImportPath_spec cwd importPath filePath pathsMap =
     (case find (\<lambda>(alias, aliasDir). startsWith importPath alias)
             (sort_key (\<lambda>(alias, aliasDir). - int (length alias)) pathsMap) of
        Some (alias, aliasDir) \<Rightarrow> resolve cwd [aliasDir, drop (length alias) importPath]
      | None \<Rightarrow> resolve cwd [dirname filePath, importPath])"

text \<open>
  The configuration \<^verbatim>\<open>{"~/*": ["./src/*"]}\<close>, which gives the alias table \<^verbatim>\<open>{"~/": "./src/"}\<close>,
  and the line \<^verbatim>\<open>import x from "<specifier>"\<close>.
\<close>

definition scenario_paths :: Paths where
  "scenario_paths = [(''~/*'', [''./src/*''])]"

definition scenario_line :: "string \<Rightarrow> string" where
  "scenario_line specifier = ''import x from '' @ [CHR 0x22] @ specifier @ [CHR 0x22]"

text \<open>
  A normal segment is a segment that \<open>path.resolve\<close> keeps: not empty, not \<^verbatim>\<open>.\<close>, not \<^verbatim>\<open>..\<close>,
  and without a separator.
\<close>

definition normalSegment :: "string \<Rightarrow> bool" where
  "normalSegment s \<longleftrightarrow> s \<noteq> [] \<and> s \<noteq> ''.'' \<and> s \<noteq> ''..'' \<and> CHR ''/'' \<notin> set s"

text \<open>The segments of the path that \<open>resolve\<close> returns for an absolute working directory.\<close>

definition resolvedSegments :: "string \<Rightarrow> string list \<Rightarrow> string list" where
  "resolvedSegments cwd args =
     foldl (normalizeStep False) [] (splitSlash (fst (resolve_loop (rev args @ [cwd]) [])))"

text \<open>
  The file an import stands for: the resolved path with the extension and base name that
  the extension resolver returns for it (the first of the \<^verbatim>\<open>.ts\<close>, \<^verbatim>\<open>.tsx\<close>, \<^verbatim>\<open>.d.ts\<close> targets
  that exists), and the resolved path itself where the resolver returns nothing.
\<close>

definition extensionTarget :: "(string \<Rightarrow> bool) \<Rightarrow> string \<Rightarrow> string" where
  "extensionTarget exists resolvedImportPath =
     (case getNewExtensionPathParts exists (parse resolvedImportPath) of
        None \<Rightarrow> resolvedImportPath
      | Some (e, b) \<Rightarrow> format ((parse resolvedImportPath)\<lparr>ext := e, base := b\<rparr>))"

text \<open>
  The callback of the rewrite pass depends on the import path through two functions:
  the new import path \<open>f\<close> and the errors \<open>errs\<close> it records.
\<close>

definition rewriteCallback ::
  "(string \<Rightarrow> string) \<Rightarrow> (string \<Rightarrow> ImportError list) \<Rightarrow> string \<Rightarrow> string
     \<Rightarrow> ImportError list \<times> Change list \<Rightarrow> string \<times> ImportError list \<times> Change list" where
  "rewriteCallback f errs match importPath acc =
     (case acc of (es, cs) \<Rightarrow>
        if f importPath = importPath then (match, es @ errs importPath, cs)
        else (replaceFirst match importPath (f importPath), es @ errs importPath,
              cs @ [(importPath, f importPath)]))"

text \<open>The import paths that the pattern captures in a text, in order.\<close>

definition importPathsOf :: "string \<Rightarrow> string list" where
  "importPathsOf s = snd (replaceAllImports (\<lambda>match importPath acc. (match, acc @ [importPath])) s [])"

text \<open>The text that the scan returns for a rewrite \<open>f\<close> of the import paths.\<close>

definition rewriteText :: "(string \<Rightarrow> string) \<Rightarrow> string \<Rightarrow> string" where
  "rewriteText f s = fst (replaceAllImports (rewriteCallback f (\<lambda>p. [])) s ([], []))"

text \<open>
  A specifier is plain when it can stand between the quotes of an import and be given
  to \<^verbatim>\<open>String.replace\<close> as it is: it is not empty, it does not begin with a line
  terminator, and it holds no quote and no \<^verbatim>\<open>$\<close>.
\<close>

definition plainSpecifier :: "string \<Rightarrow> bool" where
  "plainSpecifier p \<longleftrightarrow>
     p \<noteq> [] \<and> \<not> isLineTerminator (hd p) \<and> list_all (\<lambda>c. \<not> isQuote c \<and> c \<noteq> CHR ''$'') p"


text \<open>
  The rewrite of an import path is stable when the pass leaves the path, or puts for it
  a plain specifier that the pass leaves.
\<close>

definition stableRewrite ::
  "string \<Rightarrow> (string \<Rightarrow> bool) \<Rightarrow> PathsMap \<Rightarrow> FixImportsOptions \<Rightarrow> string \<Rightarrow> string \<Rightarrow> bool" where
  "stableRewrite cwd exists pathsMap opts filePath importPath \<longleftrightarrow>
     (let newImportPath = newImportPathOf cwd exists pathsMap opts filePath importPath
      in newImportPath = importPath \<or>
         plainSpecifier newImportPath \<and>
         newImportPathOf cwd exists pathsMap opts filePath newImportPath = newImportPath)"


section \<open>Properties of the alias table\<close>

lemma endsWith_iff: "endsWith s p \<longleftrightarrow> (\<exists>t. s = t @ p)"
proof
  assume a: "endsWith s p"
  then have "s = take (length s - length p) s @ p"
    using append_take_drop_id [of "length s - length p" s] by (simp add: endsWith_def)
  then show "\<exists>t. s = t @ p" ..
next
  assume "\<exists>t. s = t @ p"
  then show "endsWith s p" by (auto simp: endsWith_def)
qed

lemma startsWith_iff: "startsWith s p \<longleftrightarrow> (\<exists>t. s = p @ t)"
proof
  assume "startsWith s p"
  then have "s = p @ drop (length p) s"
    using append_take_drop_id [of "length p" s] by (simp add: startsWith_def)
  then show "\<exists>t. s = p @ t" ..
next
  assume "\<exists>t. s = p @ t"
  then show "startsWith s p" by (auto simp: startsWith_def)
qed

lemma endsWith_butlast_star:
  assumes "endsWith s ''/*''"
  shows "s = butlast s @ ''*'' \<and> endsWith (butlast s) ''/''"
proof -
  from assms obtain t where s: "s = t @ ''/*''"
    by (auto simp: endsWith_iff)
  have bl: "butlast s = t @ ''/''"
    unfolding s by (simp add: butlast_append)
  show ?thesis
    unfolding bl endsWith_iff using s by auto
qed

lemma set_AList_update:
  "p \<in> set (AList.update k v al) \<Longrightarrow> p = (k, v) \<or> p \<in> set al"
  by (induction al) (auto split: if_splits)

lemma acceptedEntries_Cons: "acceptedEntries entries \<subseteq> acceptedEntries (entry # entries)"
  unfolding acceptedEntries_def by auto

lemma acceptedEntries_head:
  "endsWith k ''/*'' \<Longrightarrow> endsWith d ''/*'' \<Longrightarrow>
     (butlast k, butlast d) \<in> acceptedEntries ((k, d # ds) # entries)"
  unfolding acceptedEntries_def by auto

lemma getPathsMap_loop_subset:
  "set (getPathsMap_loop entries pathsMap) \<subseteq> set pathsMap \<union> acceptedEntries entries"
proof (induction entries arbitrary: pathsMap)
  case Nil
  show ?case by simp
next
  case (Cons entry entries)
  obtain k targets where entry: "entry = (k, targets)" by (cases entry)
  show ?case
  proof (cases "endsWith k ''/*'' \<and> targets \<noteq> [] \<and> endsWith (hd targets) ''/*''")
    case False
    then have "getPathsMap_loop (entry # entries) pathsMap = getPathsMap_loop entries pathsMap"
      unfolding entry by (cases targets) auto
    with Cons.IH [of pathsMap] acceptedEntries_Cons [of entries entry] show ?thesis
      by (simp del: getPathsMap_loop.simps) blast
  next
    case True
    then obtain d ds where t: "targets = d # ds" by (cases targets) auto
    have step: "getPathsMap_loop (entry # entries) pathsMap
        = getPathsMap_loop entries (AList.update (butlast k) (butlast d) pathsMap)"
      using True t entry by simp
    have u: "set (AList.update (butlast k) (butlast d) pathsMap)
        \<subseteq> insert (butlast k, butlast d) (set pathsMap)"
      using set_AList_update by fastforce
    have h: "(butlast k, butlast d) \<in> acceptedEntries (entry # entries)"
      unfolding entry t using True t by (intro acceptedEntries_head) simp_all
    show ?thesis
      unfolding step
      using Cons.IH [of "AList.update (butlast k) (butlast d) pathsMap"] u h
        acceptedEntries_Cons [of entries entry]
      by blast
  qed
qed

lemma getPathsMap_entry:
  assumes "getPathsMap tsconfig = Inr pathsMap" and "(alias, aliasDir) \<in> set pathsMap"
  shows "endsWith alias ''/'' \<and> endsWith aliasDir ''/'' \<and>
    (\<exists>paths targets. tsconfig = Some (Some paths) \<and>
       (alias @ ''*'', (aliasDir @ ''*'') # targets) \<in> set paths)"
proof -
  from assms obtain config where c: "tsconfig = Some config"
    "pathsMap = getPathsMap_loop (case config of None \<Rightarrow> [] | Some ps \<Rightarrow> ps) []"
    by (auto simp: getPathsMap_def split: option.splits)
  with assms(2) getPathsMap_loop_subset [of "case config of None \<Rightarrow> [] | Some ps \<Rightarrow> ps" "[]"]
  have "(alias, aliasDir) \<in> acceptedEntries (case config of None \<Rightarrow> [] | Some ps \<Rightarrow> ps)"
    by auto
  then obtain k d ds where kd: "alias = butlast k" "aliasDir = butlast d"
    "(k, d # ds) \<in> set (case config of None \<Rightarrow> [] | Some ps \<Rightarrow> ps)"
    "endsWith k ''/*''" "endsWith d ''/*''"
    unfolding acceptedEntries_def by auto
  then obtain paths where p: "config = Some paths" by (cases config) auto
  from endsWith_butlast_star [OF kd(4)] endsWith_butlast_star [OF kd(5)] kd p c
  show ?thesis by auto
qed

lemma startsWith_slash_boundary:
  assumes "endsWith alias ''/''" and "startsWith importPath alias"
  shows "alias \<noteq> [] \<and> importPath ! (length alias - 1) = CHR ''/''"
proof -
  from assms obtain t r where a: "alias = t @ ''/''" and i: "importPath = alias @ r"
    by (auto simp: endsWith_iff startsWith_iff)
  then show ?thesis by (simp add: nth_append)
qed

text \<open>
  C9.  Every alias key and every target directory of the table that \<open>getPathsMap\<close> builds
  ends with the separator \<^verbatim>\<open>/\<close>: the entry comes from a configured entry whose key and
  first target both end in \<^verbatim>\<open>/*\<close>, with exactly the final \<^verbatim>\<open>*\<close> removed on each side.
  So where an alias is a prefix of a specifier, the last character of the matched
  prefix is a separator: the alias matches at a path-segment boundary.
\<close>

theorem getPathsMap_keys_and_targets_end_with_slash:
  assumes "getPathsMap tsconfig = Inr pathsMap" and "(alias, aliasDir) \<in> set pathsMap"
  shows "endsWith alias ''/'' \<and> endsWith aliasDir ''/'' \<and>
    (\<exists>paths targets. tsconfig = Some (Some paths) \<and>
       (alias @ ''*'', (aliasDir @ ''*'') # targets) \<in> set paths \<and>
       endsWith (alias @ ''*'') ''/*'' \<and> endsWith (aliasDir @ ''*'') ''/*'') \<and>
    (\<forall>importPath. startsWith importPath alias \<longrightarrow>
       alias \<noteq> [] \<and> importPath ! (length alias - 1) = CHR ''/'')"
proof -
  from getPathsMap_entry [OF assms] obtain paths targets where
    e: "endsWith alias ''/''" "endsWith aliasDir ''/''" "tsconfig = Some (Some paths)"
      "(alias @ ''*'', (aliasDir @ ''*'') # targets) \<in> set paths"
    by blast
  from e(1,2) have "endsWith (alias @ ''*'') ''/*''" "endsWith (aliasDir @ ''*'') ''/*''"
    by (auto simp: endsWith_iff)
  with e startsWith_slash_boundary [OF e(1)] show ?thesis by blast
qed

theorem getPathsMap_keys_and_targets_end_with_slash_witness:
  "getPathsMap (Some (Some [(''~/*'', [''./src/*'']), (''lib'', [''./lib/*''])]))
     = Inr [(''~/'', ''./src/'')] \<and>
   endsWith ''~/'' ''/'' \<and> endsWith ''./src/'' ''/'' \<and>
   startsWith ''~/b'' ''~/'' \<and> ''~/b'' ! (length ''~/'' - 1) = CHR ''/''"
proof -
  have g: "getPathsMap (Some (Some [(''~/*'', [''./src/*'']), (''lib'', [''./lib/*''])]))
     = Inr [(''~/'', ''./src/'')]"
    by (simp add: getPathsMap_def endsWith_def)
  have m: "(''~/'', ''./src/'') \<in> set [(''~/'', ''./src/'')]" by simp
  have s: "startsWith ''~/b'' ''~/''" by (simp add: startsWith_def)
  from getPathsMap_keys_and_targets_end_with_slash [OF g m] s g
  show ?thesis by blast
qed

lemma getPathsMap_loop_first_target:
  "getPathsMap_loop (map (\<lambda>(alias, targets). (alias, take 1 targets)) entries) pathsMap
     = getPathsMap_loop entries pathsMap"
proof (induction entries pathsMap rule: getPathsMap_loop.induct)
  case (1 pathsMap)
  show ?case by simp
next
  case (2 k targets entries pathsMap)
  then show ?case by (cases targets) auto
qed

text \<open>
  C10.  Of the array of target directories that a configured entry maps its key to, the
  loader reads the first element only: two configurations that agree on the keys and on
  the first targets give the same alias table, hence the same rewrite pass (resolution,
  extension lookup, alias rewriting) and the same run; and the target registered for an
  alias is the first element of a configured array.
\<close>

theorem getPathsMap_reads_first_target_only:
  assumes "map (\<lambda>(k, targets). (k, take 1 targets)) paths
         = map (\<lambda>(k, targets). (k, take 1 targets)) paths'"
  shows "getPathsMap (Some (Some paths)) = getPathsMap (Some (Some paths')) \<and>
    fixImports (Some (Some paths)) cwd disk0 filePaths opts
      = fixImports (Some (Some paths')) cwd disk0 filePaths opts \<and>
    main (Some (Some paths)) cwd exportDeclarations disk0 filePaths opts
      = main (Some (Some paths')) cwd exportDeclarations disk0 filePaths opts \<and>
    (\<forall>pathsMap k aliasDir. getPathsMap (Some (Some paths)) = Inr pathsMap \<and>
        (k, aliasDir) \<in> set pathsMap \<longrightarrow>
        (\<exists>targets. (k @ ''*'', (aliasDir @ ''*'') # targets) \<in> set paths))"
proof -
  have "getPathsMap_loop paths [] = getPathsMap_loop paths' []"
    using getPathsMap_loop_first_target [of paths "[]"] getPathsMap_loop_first_target [of paths' "[]"]
      assms by simp
  then have g: "getPathsMap (Some (Some paths)) = getPathsMap (Some (Some paths'))"
    by (simp add: getPathsMap_def)
  then have f: "fixImports (Some (Some paths)) cwd disk0 filePaths opts
      = fixImports (Some (Some paths')) cwd disk0 filePaths opts"
    by (simp add: fixImports_def)
  then have "main (Some (Some paths)) cwd exportDeclarations disk0 filePaths opts
      = main (Some (Some paths')) cwd exportDeclarations disk0 filePaths opts"
    by (simp add: main_def tsImportFix_def)
  moreover have "\<exists>targets. (k @ ''*'', (aliasDir @ ''*'') # targets) \<in> set paths"
    if "getPathsMap (Some (Some paths)) = Inr pathsMap" "(k, aliasDir) \<in> set pathsMap"
    for pathsMap k aliasDir
    using getPathsMap_entry [OF that] by auto
  ultimately show ?thesis using g f by blast
qed

theorem getPathsMap_reads_first_target_only_witness:
  "getPathsMap (Some (Some [(''~/*'', [''./src/*'', ''./other/*''])]))
     = getPathsMap (Some (Some [(''~/*'', [''./src/*''])])) \<and>
   getPathsMap (Some (Some [(''~/*'', [''./src/*'', ''./other/*''])])) = Inr [(''~/'', ''./src/'')]"
proof -
  have "map (\<lambda>(k, targets). (k, take 1 targets)) [(''~/*'', [''./src/*'', ''./other/*''])]
      = map (\<lambda>(k, targets). (k, take 1 targets)) [(''~/*'', [''./src/*''])]"
    by simp
  from getPathsMap_reads_first_target_only [OF this]
  have "getPathsMap (Some (Some [(''~/*'', [''./src/*'', ''./other/*''])]))
     = getPathsMap (Some (Some [(''~/*'', [''./src/*''])]))"
    by blast
  moreover have "getPathsMap (Some (Some [(''~/*'', [''./src/*''])])) = Inr [(''~/'', ''./src/'')]"
    by (simp add: getPathsMap_def endsWith_def)
  ultimately show ?thesis by simp
qed

section \<open>Properties of the extension resolver\<close>

lemma probeExtensions_find:
  "probeExtensions exists importParts extensions =
     (case find (\<lambda>e. exists (format (importParts\<lparr>ext := e, base := []\<rparr>))) extensions of
        None \<Rightarrow> None
      | Some e \<Rightarrow> Some (e, []))"
  by (induction extensions) (simp_all add: changeExtension_def Let_def)

lemma extensionStep_None:
  assumes "getNewExtensionPathParts exists resolvedImportParts = None"
  shows "extensionStep exists importPath resolvedImportParts newImportParts =
    (newImportParts, [ExtensionNotFound importPath (format (changeExtension resolvedImportParts []))])"
  using assms by (simp add: extensionStep_def)

lemma aliasStep_keeps_ext_base:
  "ext (fst (aliasStep cwd pathsMap skip importPath resolvedImportParts newImportParts))
     = ext newImportParts \<and>
   base (fst (aliasStep cwd pathsMap skip importPath resolvedImportParts newImportParts))
     = base newImportParts \<and>
   name (fst (aliasStep cwd pathsMap skip importPath resolvedImportParts newImportParts))
     = name newImportParts \<and>
   root (fst (aliasStep cwd pathsMap skip importPath resolvedImportParts newImportParts))
     = root newImportParts"
  by (simp add: aliasStep_def split: option.splits)

text \<open>
  C1.  The extension resolver returns the extension and the base name unchanged when the
  extension of the resolved path is not one of \<^verbatim>\<open>""\<close>, \<^verbatim>\<open>.js\<close>, \<^verbatim>\<open>.jsx\<close>, \<^verbatim>\<open>.ts\<close>, \<^verbatim>\<open>.tsx\<close>.
  When it is one of them, the resolver substitutes \<^verbatim>\<open>.ts\<close>, \<^verbatim>\<open>.tsx\<close>, \<^verbatim>\<open>.d.ts\<close> in that order
  into the path, tests each target on the disk and returns the first extension whose
  target exists; when none exists it returns nothing, and the rewrite of the import
  then records \<open>ExtensionNotFound\<close> and leaves the extension and the base name of the
  specifier as they were written.
\<close>

theorem getNewExtensionPathParts_probes_in_order:
  "(ext importParts \<notin> {[], ''.js'', ''.jsx'', ''.ts'', ''.tsx''} \<longrightarrow>
      getNewExtensionPathParts exists importParts = Some (ext importParts, base importParts)) \<and>
   (ext importParts \<in> {[], ''.js'', ''.jsx'', ''.ts'', ''.tsx''} \<longrightarrow>
      getNewExtensionPathParts exists importParts =
        (case find (\<lambda>e. exists (format (importParts\<lparr>ext := e, base := []\<rparr>)))
                [''.ts'', ''.tsx'', ''.d.ts''] of
           None \<Rightarrow> None
         | Some e \<Rightarrow> Some (e, []))) \<and>
   (getNewExtensionPathParts exists (parse (resolveImportPath cwd importPath filePath pathsMap)) = None \<and>
    newImportPartsOf cwd exists pathsMap opts filePath importPath = Some (newImportParts, errs) \<longrightarrow>
      ext newImportParts = ext (parse importPath) \<and>
      base newImportParts = base (parse importPath) \<and>
      ExtensionNotFound importPath
        (format (changeExtension (parse (resolveImportPath cwd importPath filePath pathsMap)) []))
          \<in> set errs)"
proof (intro conjI impI)
  assume "ext importParts \<notin> {[], ''.js'', ''.jsx'', ''.ts'', ''.tsx''}"
  then show "getNewExtensionPathParts exists importParts = Some (ext importParts, base importParts)"
    by (simp add: getNewExtensionPathParts_def tsExtensionLookups_def)
next
  assume "ext importParts \<in> {[], ''.js'', ''.jsx'', ''.ts'', ''.tsx''}"
  then have "ext importParts \<in> set tsExtensionLookups"
    by (simp add: tsExtensionLookups_def)
  then show "getNewExtensionPathParts exists importParts =
        (case find (\<lambda>e. exists (format (importParts\<lparr>ext := e, base := []\<rparr>)))
                [''.ts'', ''.tsx'', ''.d.ts''] of
           None \<Rightarrow> None
         | Some e \<Rightarrow> Some (e, []))"
    unfolding getNewExtensionPathParts_def probeExtensions_find ALLOWED_EXTENSIONS_def by simp
next
  let ?resolved = "parse (resolveImportPath cwd importPath filePath pathsMap)"
  assume a: "getNewExtensionPathParts exists ?resolved = None \<and>
    newImportPartsOf cwd exists pathsMap opts filePath importPath = Some (newImportParts, errs)"
  obtain p2 e2 where al: "aliasStep cwd pathsMap (skipAlias opts) importPath ?resolved (parse importPath)
      = (p2, e2)"
    by (cases "aliasStep cwd pathsMap (skipAlias opts) importPath ?resolved (parse importPath)")
  from a have r: "newImportParts = p2"
      "errs = [ExtensionNotFound importPath (format (changeExtension ?resolved []))] @ e2"
    using al extensionStep_None [of exists ?resolved importPath "parse importPath"]
    by (auto simp: newImportPartsOf_def Let_def split: if_splits)
  from aliasStep_keeps_ext_base [of cwd pathsMap "skipAlias opts" importPath ?resolved "parse importPath"]
  have "ext p2 = ext (parse importPath)" "base p2 = base (parse importPath)"
    unfolding al by simp_all
  with r show "ext newImportParts = ext (parse importPath)"
    "base newImportParts = base (parse importPath)"
    "ExtensionNotFound importPath (format (changeExtension ?resolved [])) \<in> set errs"
    by simp_all
qed

theorem getNewExtensionPathParts_probes_in_order_witness:
  "getNewExtensionPathParts (\<lambda>p. p = ''/proj/src/b.tsx'') (parse ''/proj/src/b'') = Some (''.tsx'', []) \<and>
   getNewExtensionPathParts (\<lambda>p. False) (parse ''/proj/src/s.css'') = Some (''.css'', ''s.css'') \<and>
   ext (parse ''/proj/src/b'') \<in> {[], ''.js'', ''.jsx'', ''.ts'', ''.tsx''} \<and>
   ext (parse ''/proj/src/s.css'') \<notin> {[], ''.js'', ''.jsx'', ''.ts'', ''.tsx''}"
proof -
  have a: "ext (parse ''/proj/src/b'') \<in> {[], ''.js'', ''.jsx'', ''.ts'', ''.tsx''}"
    by code_simp
  have b: "ext (parse ''/proj/src/s.css'') \<notin> {[], ''.js'', ''.jsx'', ''.ts'', ''.tsx''}"
    by code_simp
  have "getNewExtensionPathParts (\<lambda>p. p = ''/proj/src/b.tsx'') (parse ''/proj/src/b'') =
      (case find (\<lambda>e. (\<lambda>p. p = ''/proj/src/b.tsx'')
                 (format ((parse ''/proj/src/b'')\<lparr>ext := e, base := []\<rparr>)))
              [''.ts'', ''.tsx'', ''.d.ts''] of
         None \<Rightarrow> None
       | Some e \<Rightarrow> Some (e, []))"
    using getNewExtensionPathParts_probes_in_order
      [of "parse ''/proj/src/b''" "\<lambda>p. p = ''/proj/src/b.tsx''"] a by blast
  also have "\<dots> = Some (''.tsx'', [])"
    by code_simp
  finally have c: "getNewExtensionPathParts (\<lambda>p. p = ''/proj/src/b.tsx'') (parse ''/proj/src/b'')
      = Some (''.tsx'', [])" .
  have "getNewExtensionPathParts (\<lambda>p. False) (parse ''/proj/src/s.css'')
      = Some (ext (parse ''/proj/src/s.css''), base (parse ''/proj/src/s.css''))"
    using getNewExtensionPathParts_probes_in_order
      [of "parse ''/proj/src/s.css''" "\<lambda>p. False"] b by blast
  also have "\<dots> = Some (''.css'', ''s.css'')"
    by code_simp
  finally show ?thesis using a b c by simp
qed

section \<open>Properties of the export scan and of the exit code\<close>

lemma checkFile_foldl_rejected:
  "snd (foldl (checkFile ed d) (errs, rej) files) \<longleftrightarrow>
     rej \<or> (\<exists>f \<in> set files. name (parse f) \<noteq> ''index'' \<and> readFile d f = None)"
proof (induction files arbitrary: errs rej)
  case Nil
  show ?case by simp
next
  case (Cons f files)
  obtain errs' rej' where s: "checkFile ed d (errs, rej) f = (errs', rej')"
    by (cases "checkFile ed d (errs, rej) f")
  then have "rej' \<longleftrightarrow> rej \<or> (name (parse f) \<noteq> ''index'' \<and> readFile d f = None)"
    by (auto simp: checkFile_def Let_def split: if_splits option.splits)
  with Cons.IH [of errs' rej'] s show ?case by auto
qed

lemma checkFile_foldl_errors:
  "fst (foldl (checkFile ed d) (errs, rej) files) = [] \<longleftrightarrow>
     errs = [] \<and> (\<forall>f \<in> set files. \<forall>src. name (parse f) \<noteq> ''index'' \<and> readFile d f = Some src
        \<longrightarrow> ed (base (parse f)) src = [])"
proof (induction files arbitrary: errs rej)
  case Nil
  show ?case by simp
next
  case (Cons f files)
  obtain errs' rej' where s: "checkFile ed d (errs, rej) f = (errs', rej')"
    by (cases "checkFile ed d (errs, rej) f")
  then have "errs' = [] \<longleftrightarrow> errs = [] \<and>
      (\<forall>src. name (parse f) \<noteq> ''index'' \<and> readFile d f = Some src \<longrightarrow> ed (base (parse f)) src = [])"
    by (auto simp: checkFile_def Let_def split: if_splits option.splits)
  with Cons.IH [of errs' rej'] s show ?case by auto
qed

lemma checkExports_None_iff:
  "checkExports ed d files = None \<longleftrightarrow>
     (\<forall>f \<in> set files. name (parse f) \<noteq> ''index'' \<longrightarrow>
        (\<exists>src. readFile d f = Some src \<and> ed (base (parse f)) src = []))"
proof -
  obtain errs rej where s: "foldl (checkFile ed d) ([], False) files = (errs, rej)"
    by (cases "foldl (checkFile ed d) ([], False) files")
  have r1: "checkExports ed d files = None \<longleftrightarrow> \<not> rej \<and> errs = []"
    by (simp add: checkExports_def s)
  have r2: "rej \<longleftrightarrow> (\<exists>f \<in> set files. name (parse f) \<noteq> ''index'' \<and> readFile d f = None)"
    using checkFile_foldl_rejected [of ed d "[]" False files] s by simp
  have r3: "errs = [] \<longleftrightarrow> (\<forall>f \<in> set files. \<forall>src. name (parse f) \<noteq> ''index'' \<and>
      readFile d f = Some src \<longrightarrow> ed (base (parse f)) src = [])"
    using checkFile_foldl_errors [of ed d "[]" False files] s by simp
  show ?thesis
    unfolding r1 r2 r3
  proof (intro iffI ballI impI)
    fix f
    assume a: "\<not> (\<exists>f \<in> set files. name (parse f) \<noteq> ''index'' \<and> readFile d f = None) \<and>
      (\<forall>f \<in> set files. \<forall>src. name (parse f) \<noteq> ''index'' \<and> readFile d f = Some src \<longrightarrow>
         ed (base (parse f)) src = [])"
      and f: "f \<in> set files" "name (parse f) \<noteq> ''index''"
    then have "readFile d f \<noteq> None" by auto
    then obtain src where "readFile d f = Some src" by auto
    with a f show "\<exists>src. readFile d f = Some src \<and> ed (base (parse f)) src = []" by auto
  next
    assume a: "\<forall>f \<in> set files. name (parse f) \<noteq> ''index'' \<longrightarrow>
        (\<exists>src. readFile d f = Some src \<and> ed (base (parse f)) src = [])"
    have "\<not> (\<exists>f \<in> set files. name (parse f) \<noteq> ''index'' \<and> readFile d f = None)"
      using a by auto
    moreover have "\<forall>f \<in> set files. \<forall>src. name (parse f) \<noteq> ''index'' \<and> readFile d f = Some src \<longrightarrow>
         ed (base (parse f)) src = []"
      using a by auto
    ultimately show "\<not> (\<exists>f \<in> set files. name (parse f) \<noteq> ''index'' \<and> readFile d f = None) \<and>
      (\<forall>f \<in> set files. \<forall>src. name (parse f) \<noteq> ''index'' \<and> readFile d f = Some src \<longrightarrow>
         ed (base (parse f)) src = [])" by simp
  qed
qed

lemma main_eq:
  assumes "fixImports tsconfig cwd disk0 filePaths opts = (disk1, changeLog, fixImportsResult)"
  shows "main tsconfig cwd ed disk0 filePaths opts =
    (if fixImportsResult = None \<and> checkExports ed disk1 filePaths = None then 0 else 1)"
  using assms by (auto simp: main_def tsImportFix_def Let_def split: option.splits)

text \<open>
  C8.  The exit code is 0 when neither the rewrite pass nor the export scan returns an
  error, and 1 otherwise.  The export scan returns no error exactly when every file of
  the list whose name without extension is not \<^verbatim>\<open>index\<close> can be read and holds no export
  declaration; so one such file with an export declaration makes the exit code 1,
  whatever the rewrite pass returns.  The scan reads the disk that the rewrite pass
  leaves.
\<close>

theorem main_exit_code:
  assumes "fixImports tsconfig cwd disk0 filePaths opts = (disk1, changeLog, fixImportsResult)"
  shows "main tsconfig cwd ed disk0 filePaths opts =
      (if fixImportsResult = None \<and> checkExports ed disk1 filePaths = None then 0 else 1) \<and>
    (checkExports ed disk1 filePaths = None \<longleftrightarrow>
      (\<forall>f \<in> set filePaths. name (parse f) \<noteq> ''index'' \<longrightarrow>
         (\<exists>src. readFile disk1 f = Some src \<and> ed (base (parse f)) src = []))) \<and>
    (\<forall>f src. f \<in> set filePaths \<and> name (parse f) \<noteq> ''index'' \<and> readFile disk1 f = Some src \<and>
       ed (base (parse f)) src \<noteq> [] \<longrightarrow> main tsconfig cwd ed disk0 filePaths opts = 1)"
proof -
  have "main tsconfig cwd ed disk0 filePaths opts = 1"
    if "f \<in> set filePaths" "name (parse f) \<noteq> ''index''" "readFile disk1 f = Some src"
      "ed (base (parse f)) src \<noteq> []" for f src
  proof -
    from that have "checkExports ed disk1 filePaths \<noteq> None"
      unfolding checkExports_None_iff by auto
    then show ?thesis by (simp add: main_eq [OF assms])
  qed
  then show ?thesis
    using main_eq [OF assms] checkExports_None_iff [of ed disk1 filePaths] by blast
qed

theorem main_exit_code_witness:
  "snd (snd (fixImports (Some (Some [])) ''/proj''
      \<lparr>existsSync = (\<lambda>p. False),
       readFile = (\<lambda>p. if p = ''src/a.ts'' then Some (''export * from '' @ CHR 0x27 # ''lib'' @ [CHR 0x27])
                       else None),
       canWrite = (\<lambda>p. True)\<rparr>
      [''src/a.ts''] \<lparr>write_opt = True, importIgnoreStrings = [], skipAlias = False\<rparr>)) = None \<and>
   main (Some (Some [])) ''/proj''
      (\<lambda>fileName sourceCode. if startsWith sourceCode ''export'' then [sourceCode] else [])
      \<lparr>existsSync = (\<lambda>p. False),
       readFile = (\<lambda>p. if p = ''src/a.ts'' then Some (''export * from '' @ CHR 0x27 # ''lib'' @ [CHR 0x27])
                       else None),
       canWrite = (\<lambda>p. True)\<rparr>
      [''src/a.ts''] \<lparr>write_opt = True, importIgnoreStrings = [], skipAlias = False\<rparr> = 1"
proof -
  let ?ed = "\<lambda>fileName sourceCode. if startsWith sourceCode ''export'' then [sourceCode] else []"
  let ?src = "''export * from '' @ CHR 0x27 # ''lib'' @ [CHR 0x27]"
  let ?d = "\<lparr>existsSync = (\<lambda>p. False),
       readFile = (\<lambda>p. if p = ''src/a.ts'' then Some ?src else None),
       canWrite = (\<lambda>p. True)\<rparr>"
  let ?opts = "\<lparr>write_opt = True, importIgnoreStrings = [], skipAlias = False\<rparr>"
  let ?run = "fixImports (Some (Some [])) ''/proj'' ?d [''src/a.ts''] ?opts"
  have h: "?run = (fst ?run, fst (snd ?run), snd (snd ?run))" by simp
  have 1: "''src/a.ts'' \<in> set [''src/a.ts'']" by simp
  have 2: "name (parse ''src/a.ts'') \<noteq> ''index''" by code_simp
  have 3: "readFile (fst ?run) ''src/a.ts'' = Some ?src" by code_simp
  have 4: "?ed (base (parse ''src/a.ts'')) ?src \<noteq> []" by code_simp
  have 5: "snd (snd ?run) = None" by code_simp
  from main_exit_code [OF h, of ?ed] 1 2 3 4
  have "main (Some (Some [])) ''/proj'' ?ed ?d [''src/a.ts''] ?opts = 1" by blast
  with 5 show ?thesis by simp
qed

section \<open>Properties of the import path resolver\<close>

lemma map_fst_insort_key:
  "map fst (insort_key (\<lambda>p. g (fst p)) x xs) = insort_key g (fst x) (map fst xs)"
  by (induction xs) auto

lemma map_fst_sort_key:
  "map fst (sort_key (\<lambda>p. g (fst p)) xs) = sort_key g (map fst xs)"
  by (induction xs) (simp_all add: map_fst_insort_key)

lemma resolveImportPath_loop_find:
  assumes "distinct (map fst pathsMap)"
    and "\<forall>(k, aliasDir) \<in> set pathsMap. aliasDir \<noteq> []"
    and "set entries \<subseteq> set pathsMap"
  shows "resolveImportPath_loop cwd importPath pathsMap (map fst entries) =
     (case find (\<lambda>(k, aliasDir). startsWith importPath k) entries of
        None \<Rightarrow> None
      | Some (k, aliasDir) \<Rightarrow> Some (resolve cwd [aliasDir, drop (length k) importPath]))"
  using assms(3)
proof (induction entries)
  case Nil
  show ?case by simp
next
  case (Cons entry entries)
  obtain k aliasDir where entry: "entry = (k, aliasDir)" by (cases entry)
  with Cons.prems have m: "(k, aliasDir) \<in> set pathsMap" by simp
  then have "map_of pathsMap k = Some aliasDir" "aliasDir \<noteq> []"
    using assms(1,2) by auto
  with Cons entry show ?case by simp
qed

lemma resolveImportPath_eq_spec:
  assumes "distinct (map fst pathsMap)"
    and "\<forall>(k, aliasDir) \<in> set pathsMap. aliasDir \<noteq> []"
  shows "resolveImportPath cwd importPath filePath pathsMap
       = resolveImportPath_spec cwd importPath filePath pathsMap"
proof -
  let ?sorted = "sort_key (\<lambda>(k, aliasDir). - int (length k)) pathsMap"
  have key: "(\<lambda>(k, aliasDir). - int (length k)) = (\<lambda>p :: string \<times> string. - int (length (fst p)))"
    by (simp add: fun_eq_iff split_beta)
  have "sort_key (\<lambda>a. - int (length a)) (map fst pathsMap) = map fst ?sorted"
    unfolding key by (rule map_fst_sort_key [symmetric])
  moreover have "set ?sorted \<subseteq> set pathsMap" by simp
  ultimately have "resolveImportPath_loop cwd importPath pathsMap
        (sort_key (\<lambda>a. - int (length a)) (map fst pathsMap)) =
     (case find (\<lambda>(k, aliasDir). startsWith importPath k) ?sorted of
        None \<Rightarrow> None
      | Some (k, aliasDir) \<Rightarrow> Some (resolve cwd [aliasDir, drop (length k) importPath]))"
    using resolveImportPath_loop_find [OF assms, of ?sorted cwd importPath] by simp
  then show ?thesis
    by (simp add: resolveImportPath_def resolveImportPath_spec_def Let_def
        split: option.splits)
qed

lemma distinct_getPathsMap_loop:
  "distinct (map fst pathsMap) \<Longrightarrow> distinct (map fst (getPathsMap_loop entries pathsMap))"
  by (induction entries pathsMap rule: getPathsMap_loop.induct)
    (auto simp: distinct_update split: list.splits)

lemma getPathsMap_wellformed:
  assumes "getPathsMap tsconfig = Inr pathsMap"
  shows "distinct (map fst pathsMap)" and "\<forall>(k, aliasDir) \<in> set pathsMap. aliasDir \<noteq> []"
proof -
  from assms show "distinct (map fst pathsMap)"
    using distinct_getPathsMap_loop [of "[]"]
    by (auto simp: getPathsMap_def split: option.splits)
  show "\<forall>(k, aliasDir) \<in> set pathsMap. aliasDir \<noteq> []"
  proof clarify
    fix k
    assume "(k, []) \<in> set pathsMap"
    from getPathsMap_entry [OF assms this] show False
      by (simp add: endsWith_def)
  qed
qed

text \<open>
  C2.  For every specifier, containing file and alias table whose keys are distinct and
  whose target directories are not empty (every table the loader builds is such a
  table, \<open>getPathsMap_wellformed\<close>), \<open>resolveImportPath\<close> goes through the alias keys by
  descending length and, for the first key that is a prefix of the specifier, resolves
  the rest of the specifier against the target directory of that key; when no key is a
  prefix it resolves the specifier against the directory of the containing file.  It
  always returns a path.
\<close>

theorem resolveImportPath_first_matching_alias_by_length:
  assumes "distinct (map fst pathsMap)"
    and "\<forall>(k, aliasDir) \<in> set pathsMap. aliasDir \<noteq> []"
  shows "resolveImportPath cwd importPath filePath pathsMap =
     (case find (\<lambda>(k, aliasDir). startsWith importPath k)
             (sort_key (\<lambda>(k, aliasDir). - int (length k)) pathsMap) of
        Some (k, aliasDir) \<Rightarrow> resolve cwd [aliasDir, drop (length k) importPath]
      | None \<Rightarrow> resolve cwd [dirname filePath, importPath])"
  using resolveImportPath_eq_spec [OF assms] by (simp add: resolveImportPath_spec_def)

theorem resolveImportPath_first_matching_alias_by_length_witness:
  "distinct (map fst [(''~/'', ''./src/''), (''~/c/'', ''./other/'')]) \<and>
   resolveImportPath ''/proj'' ''~/c/x.ts'' ''src/a.ts'' [(''~/'', ''./src/''), (''~/c/'', ''./other/'')]
     = ''/proj/other/x.ts'' \<and>
   resolveImportPath ''/proj'' ''./b'' ''src/a.ts'' [(''~/'', ''./src/''), (''~/c/'', ''./other/'')]
     = ''/proj/src/b''"
proof -
  let ?pm = "[(''~/'', ''./src/''), (''~/c/'', ''./other/'')]"
  have d: "distinct (map fst ?pm)" by simp
  have n: "\<forall>(k, aliasDir) \<in> set ?pm. aliasDir \<noteq> []" by simp
  have "resolveImportPath ''/proj'' ''~/c/x.ts'' ''src/a.ts'' ?pm =
     (case find (\<lambda>(k, aliasDir). startsWith ''~/c/x.ts'' k)
             (sort_key (\<lambda>(k, aliasDir). - int (length k)) ?pm) of
        Some (k, aliasDir) \<Rightarrow> resolve ''/proj'' [aliasDir, drop (length k) ''~/c/x.ts'']
      | None \<Rightarrow> resolve ''/proj'' [dirname ''src/a.ts'', ''~/c/x.ts''])"
    by (rule resolveImportPath_first_matching_alias_by_length [OF d n])
  also have "\<dots> = ''/proj/other/x.ts''" by code_simp
  finally have a: "resolveImportPath ''/proj'' ''~/c/x.ts'' ''src/a.ts'' ?pm = ''/proj/other/x.ts''" .
  have "resolveImportPath ''/proj'' ''./b'' ''src/a.ts'' ?pm =
     (case find (\<lambda>(k, aliasDir). startsWith ''./b'' k)
             (sort_key (\<lambda>(k, aliasDir). - int (length k)) ?pm) of
        Some (k, aliasDir) \<Rightarrow> resolve ''/proj'' [aliasDir, drop (length k) ''./b'']
      | None \<Rightarrow> resolve ''/proj'' [dirname ''src/a.ts'', ''./b''])"
    by (rule resolveImportPath_first_matching_alias_by_length [OF d n])
  also have "\<dots> = ''/proj/src/b''" by code_simp
  finally show ?thesis using a d by simp
qed

section \<open>Properties of the rewrite pass\<close>







section \<open>The scenario of the specification\<close>

lemma scenario_pathsMap: "getPathsMap (Some (Some scenario_paths)) = Inr [(''~/'', ''./src/'')]"
  by code_simp

lemma scenario_newImportParts:
  assumes "exists ''/proj/src/b.ts''" and "importIgnoreStrings opts = []"
  shows "newImportPartsOf ''/proj'' exists [(''~/'', ''./src/'')] opts ''src/a.ts'' ''./b''
    = Some (\<lparr>root = [], dir = (if skipAlias opts then ''.'' else ''~''), base = [],
              ext = ''.ts'', name = ''b''\<rparr>, [])"
proof -
  let ?pm = "[(''~/'', ''./src/'')]"
  let ?R = "\<lparr>root = ''/'', dir = ''/proj/src'', base = ''b'', ext = [], name = ''b''\<rparr>"
  have c: "isRelativeImport ''./b''" by code_simp
  have p: "parse ''./b'' = \<lparr>root = [], dir = ''.'', base = ''b'', ext = [], name = ''b''\<rparr>"
    by code_simp
  have r: "parse (resolveImportPath ''/proj'' ''./b'' ''src/a.ts'' ?pm) = ?R" by code_simp
  have l: "ext ?R \<in> set tsExtensionLookups" by code_simp
  have t: "format (changeExtension ?R ''.ts'') = ''/proj/src/b.ts''" by code_simp
  have e: "getNewExtensionPathParts exists ?R = Some (''.ts'', [])"
    using assms(1) l t
    by (simp add: getNewExtensionPathParts_def ALLOWED_EXTENSIONS_def Let_def changeExtension_def)
  have a: "getAliasPathParts ''/proj'' ?R ?pm = Some ''~''" by code_simp
  show ?thesis
    using assms(2) c
    by (simp add: newImportPartsOf_def isIgnored_def p r e a extensionStep_def aliasStep_def)
qed

lemma scenario_newImportPath:
  assumes "exists ''/proj/src/b.ts''" and "importIgnoreStrings opts = []"
  shows "newImportPathOf ''/proj'' exists [(''~/'', ''./src/'')] opts ''src/a.ts'' ''./b''
    = (if skipAlias opts then ''./b.ts'' else ''~/b.ts'')"
proof -
  have "format \<lparr>root = [], dir = ''.'', base = [], ext = ''.ts'', name = ''b''\<rparr> = ''./b.ts''"
    "format \<lparr>root = [], dir = ''~'', base = [], ext = ''.ts'', name = ''b''\<rparr> = ''~/b.ts''"
    by code_simp+
  then show ?thesis
    by (simp add: newImportPathOf_def scenario_newImportParts [where exists = exists and opts = opts, OF assms])
qed

lemma scenario_scan:
  "replaceAllImports callback (scenario_line ''./b'') acc =
     (case callback (''from '' @ [CHR 0x22] @ ''./b'' @ [CHR 0x22]) ''./b'' acc of
        (replacement, acc1) \<Rightarrow> (''import x '' @ replacement, acc1))"
  by (simp add: scenario_line_def matchImport_def matchKeyword_def startsWith_def
      isWhiteSpace_def isQuote_def isLineTerminator_def split: prod.splits)

lemma scenario_replaceImport:
  assumes "exists ''/proj/src/b.ts''" and "importIgnoreStrings opts = []"
  shows "replaceImport ''/proj'' exists [(''~/'', ''./src/'')] opts ''src/a.ts''
      (''from '' @ [CHR 0x22] @ ''./b'' @ [CHR 0x22]) ''./b'' ([], [])
    = (''from '' @ [CHR 0x22] @ (if skipAlias opts then ''./b.ts'' else ''~/b.ts'') @ [CHR 0x22], [],
       [(''./b'', if skipAlias opts then ''./b.ts'' else ''~/b.ts'')])"
proof -
  have f: "format \<lparr>root = [], dir = ''.'', base = [], ext = ''.ts'', name = ''b''\<rparr> = ''./b.ts''"
    "format \<lparr>root = [], dir = ''~'', base = [], ext = ''.ts'', name = ''b''\<rparr> = ''~/b.ts''"
    by code_simp+
  have r: "replaceFirst (''from '' @ [CHR 0x22] @ ''./b'' @ [CHR 0x22]) ''./b'' ''./b.ts''
      = ''from '' @ [CHR 0x22] @ ''./b.ts'' @ [CHR 0x22]"
    "replaceFirst (''from '' @ [CHR 0x22] @ ''./b'' @ [CHR 0x22]) ''./b'' ''~/b.ts''
      = ''from '' @ [CHR 0x22] @ ''~/b.ts'' @ [CHR 0x22]"
    by code_simp+
  show ?thesis
    unfolding replaceImport_def scenario_newImportParts [where exists = exists and opts = opts, OF assms]
    using f r by (simp add: Let_def)
qed

text \<open>
  C6.  With the alias table \<^verbatim>\<open>{"~/": "./src/"}\<close>, the working directory \<^verbatim>\<open>/proj\<close>, the file
  \<^verbatim>\<open>src/a.ts\<close> holding the line \<^verbatim>\<open>import x from "./b"\<close>, the file \<^verbatim>\<open>/proj/src/b.ts\<close> on the disk
  and no ignore string, the rewritten specifier is \<^verbatim>\<open>~/b.ts\<close> without \<^verbatim>\<open>skipAlias\<close> and
  \<^verbatim>\<open>./b.ts\<close> with it; with \<^verbatim>\<open>write\<close> the file then holds the line with that specifier.
\<close>

theorem scenario_rewrites_specifier:
  assumes "existsSync disk0 ''/proj/src/b.ts''"
    and "readFile disk0 ''src/a.ts'' = Some (scenario_line ''./b'')"
    and "canWrite disk0 ''src/a.ts''"
    and "importIgnoreStrings opts = []"
    and "write_opt opts"
  shows "getPathsMap (Some (Some scenario_paths)) = Inr [(''~/'', ''./src/'')] \<and>
    newImportPathOf ''/proj'' (existsSync disk0) [(''~/'', ''./src/'')] opts ''src/a.ts'' ''./b''
      = (if skipAlias opts then ''./b.ts'' else ''~/b.ts'') \<and>
    readFile (fst (fixImports (Some (Some scenario_paths)) ''/proj'' disk0 [''src/a.ts''] opts)) ''src/a.ts''
      = Some (scenario_line (if skipAlias opts then ''./b.ts'' else ''~/b.ts'')) \<and>
    fst (snd (fixImports (Some (Some scenario_paths)) ''/proj'' disk0 [''src/a.ts''] opts))
      = [(''src/a.ts'', [(''./b'', if skipAlias opts then ''./b.ts'' else ''~/b.ts'')])] \<and>
    snd (snd (fixImports (Some (Some scenario_paths)) ''/proj'' disk0 [''src/a.ts''] opts)) = None"
proof -
  let ?st = "\<lparr>disk = disk0, IMPORT_ERRORS = [], TRANSFORMED_IMPORTS = [], rejected = False\<rparr>"
  let ?new = "if skipAlias opts then ''./b.ts'' else ''~/b.ts''"
  have ne: "scenario_line ?new \<noteq> scenario_line ''./b''"
    by (simp add: scenario_line_def)
  have sc: "replaceAllImports (replaceImport ''/proj'' (existsSync disk0) [(''~/'', ''./src/'')] opts ''src/a.ts'')
      (scenario_line ''./b'') ([], []) = (scenario_line ?new, [], [(''./b'', ?new)])"
    unfolding scenario_scan scenario_replaceImport [where exists = "existsSync disk0" and opts = opts, OF assms(1,4)]
    by (simp add: scenario_line_def)
  have "fixFile ''/proj'' [(''~/'', ''./src/'')] opts ?st ''src/a.ts''
      = ?st\<lparr>TRANSFORMED_IMPORTS := [(''src/a.ts'', [(''./b'', ?new)])],
             disk := writeFile disk0 ''src/a.ts'' (scenario_line ?new)\<rparr>"
    using assms(2,3,5) ne by (simp add: fixFile_def sc Let_def)
  then have "fixImports (Some (Some scenario_paths)) ''/proj'' disk0 [''src/a.ts''] opts
      = (writeFile disk0 ''src/a.ts'' (scenario_line ?new), [(''src/a.ts'', [(''./b'', ?new)])], None)"
    by (simp add: fixImports_def scenario_pathsMap)
  then show ?thesis
    using scenario_pathsMap scenario_newImportPath [where exists = "existsSync disk0" and opts = opts, OF assms(1,4)]
    by (simp add: writeFile_def)
qed

theorem scenario_rewrites_specifier_witness:
  "readFile (fst (fixImports (Some (Some scenario_paths)) ''/proj''
      \<lparr>existsSync = (\<lambda>p. p = ''/proj/src/b.ts''),
       readFile = (\<lambda>p. if p = ''src/a.ts'' then Some (scenario_line ''./b'') else None),
       canWrite = (\<lambda>p. True)\<rparr>
      [''src/a.ts''] \<lparr>write_opt = True, importIgnoreStrings = [], skipAlias = False\<rparr>)) ''src/a.ts''
     = Some (scenario_line ''~/b.ts'') \<and>
   readFile (fst (fixImports (Some (Some scenario_paths)) ''/proj''
      \<lparr>existsSync = (\<lambda>p. p = ''/proj/src/b.ts''),
       readFile = (\<lambda>p. if p = ''src/a.ts'' then Some (scenario_line ''./b'') else None),
       canWrite = (\<lambda>p. True)\<rparr>
      [''src/a.ts''] \<lparr>write_opt = True, importIgnoreStrings = [], skipAlias = True\<rparr>)) ''src/a.ts''
     = Some (scenario_line ''./b.ts'')"
proof -
  let ?d = "\<lparr>existsSync = (\<lambda>p. p = ''/proj/src/b.ts''),
       readFile = (\<lambda>p. if p = ''src/a.ts'' then Some (scenario_line ''./b'') else None),
       canWrite = (\<lambda>p. True)\<rparr>"
  have h: "existsSync ?d ''/proj/src/b.ts''" "readFile ?d ''src/a.ts'' = Some (scenario_line ''./b'')"
    "canWrite ?d ''src/a.ts''"
    by simp_all
  from scenario_rewrites_specifier [where ?disk0.0 = ?d
        and opts = "\<lparr>write_opt = True, importIgnoreStrings = [], skipAlias = False\<rparr>", OF h]
    scenario_rewrites_specifier [where ?disk0.0 = ?d
        and opts = "\<lparr>write_opt = True, importIgnoreStrings = [], skipAlias = True\<rparr>", OF h]
  show ?thesis by simp
qed


section \<open>Facts about the path functions\<close>

lemma splitSlash_not_Nil [simp]: "splitSlash s \<noteq> []"
  by (induction s) (auto split: list.splits)

lemma splitSlash_noSlash: "CHR ''/'' \<notin> set s \<Longrightarrow> splitSlash s = [s]"
  by (induction s) auto

lemma splitSlash_append_slash:
  "splitSlash (s @ CHR ''/'' # t) = splitSlash s @ splitSlash t"
proof (induction s)
  case Nil
  show ?case by simp
next
  case (Cons c s)
  obtain x xs where "splitSlash s = x # xs" by (cases "splitSlash s") auto
  with Cons show ?case by (auto split: list.splits)
qed

lemma splitSlash_segments_noSlash: "seg \<in> set (splitSlash s) \<Longrightarrow> CHR ''/'' \<notin> set seg"
proof (induction s arbitrary: seg)
  case Nil
  then show ?case by simp
next
  case (Cons c s)
  obtain x xs where x: "splitSlash s = x # xs" by (cases "splitSlash s") auto
  with Cons.IH [of x] Cons.IH [of seg] Cons.prems show ?case
    by (auto split: if_splits)
qed

lemma joinSlash_snoc:
  "joinSlash (xs @ [b]) = (if xs = [] then b else joinSlash xs @ CHR ''/'' # b)"
  by (induction xs rule: joinSlash.induct) auto

lemma joinSlash_Cons:
  "joinSlash (x # xs) = (if xs = [] then x else x @ CHR ''/'' # joinSlash xs)"
  by (cases xs) auto

lemma joinSlash_append:
  "xs \<noteq> [] \<Longrightarrow> ys \<noteq> [] \<Longrightarrow> joinSlash (xs @ ys) = joinSlash xs @ CHR ''/'' # joinSlash ys"
  by (induction xs rule: joinSlash.induct) (auto simp: joinSlash_Cons)

lemma splitSlash_joinSlash:
  "xs \<noteq> [] \<Longrightarrow> \<forall>seg \<in> set xs. CHR ''/'' \<notin> set seg \<Longrightarrow> splitSlash (joinSlash xs) = xs"
proof (induction xs rule: joinSlash.induct)
  case 1
  then show ?case by simp
next
  case (2 s)
  then show ?case by (simp add: splitSlash_noSlash)
next
  case (3 s t ss)
  then show ?case
    using splitSlash_append_slash [of s "joinSlash (t # ss)"]
    by (simp add: splitSlash_noSlash)
qed

lemma normalizeStep_normal: "normalSegment seg \<Longrightarrow> normalizeStep a res seg = res @ [seg]"
  by (simp add: normalizeStep_def normalSegment_def)

lemma foldl_normalizeStep_normal:
  "\<forall>seg \<in> set segs. normalSegment seg \<Longrightarrow> foldl (normalizeStep a) res segs = res @ segs"
  by (induction segs arbitrary: res) (simp_all add: normalizeStep_normal)

lemma normalizeStep_empty [simp]: "normalizeStep a res [] = res"
  by (simp add: normalizeStep_def)

lemma normalizeStep_keeps_normal:
  assumes "\<forall>s \<in> set res. normalSegment s" and "CHR ''/'' \<notin> set seg"
  shows "\<forall>s \<in> set (normalizeStep False res seg). normalSegment s"
  using assms by (auto simp: normalizeStep_def normalSegment_def dest: in_set_butlastD)

lemma foldl_normalizeStep_keeps_normal:
  assumes "\<forall>s \<in> set res. normalSegment s" and "\<forall>seg \<in> set segs. CHR ''/'' \<notin> set seg"
  shows "\<forall>s \<in> set (foldl (normalizeStep False) res segs). normalSegment s"
  using assms
proof (induction segs arbitrary: res)
  case Nil
  then show ?case by simp
next
  case (Cons seg segs)
  have "\<forall>s \<in> set (normalizeStep False res seg). normalSegment s"
    using Cons.prems by (intro normalizeStep_keeps_normal) simp_all
  with Cons show ?case by simp
qed

lemma resolve_loop_acc:
  "resolve_loop paths acc = (fst (resolve_loop paths []) @ acc, snd (resolve_loop paths []))"
proof (induction paths arbitrary: acc)
  case Nil
  show ?case by simp
next
  case (Cons p paths)
  show ?case
    using Cons.IH [of "p @ ''/'' @ acc"] Cons.IH [of "p @ ''/''"] Cons.IH [of acc]
    by simp
qed

lemma resolve_loop_absolute:
  assumes "cwd \<noteq> []" and "hd cwd = CHR ''/''"
  shows "snd (resolve_loop (paths @ [cwd]) acc)"
  using assms by (induction paths arbitrary: acc) simp_all

lemma resolve_loop_ends_with_slash:
  "fst (resolve_loop paths []) = [] \<or> (\<exists>p. fst (resolve_loop paths []) = p @ ''/'')"
proof (induction paths)
  case Nil
  show ?case by simp
next
  case (Cons q paths)
  show ?case
  proof (cases "q = []")
    case True
    with Cons show ?thesis by simp
  next
    case False
    show ?thesis
    proof (cases "hd q = CHR ''/''")
      case True
      with False show ?thesis by simp
    next
      case nabs: False
      have "resolve_loop (q # paths) [] = resolve_loop paths (q @ ''/'')"
        using False nabs by simp
      also have "\<dots> = (fst (resolve_loop paths []) @ q @ ''/'', snd (resolve_loop paths []))"
        by (rule resolve_loop_acc)
      finally have "fst (resolve_loop (q # paths) []) = (fst (resolve_loop paths []) @ q) @ ''/''"
        by simp
      then show ?thesis by blast
    qed
  qed
qed

lemma resolve_absolute:
  assumes "cwd \<noteq> []" and "hd cwd = CHR ''/''"
  shows "resolve cwd args = CHR ''/'' # joinSlash (resolvedSegments cwd args)"
proof -
  obtain p a where r: "resolve_loop (rev args @ [cwd]) [] = (p, a)"
    by (cases "resolve_loop (rev args @ [cwd]) []")
  with resolve_loop_absolute [OF assms, of "rev args" "[]"] have "a" by simp
  with r show ?thesis
    by (simp add: resolve_def resolvedSegments_def normalizeString_def)
qed

lemma resolvedSegments_normal: "\<forall>s \<in> set (resolvedSegments cwd args). normalSegment s"
  unfolding resolvedSegments_def
  by (rule foldl_normalizeStep_keeps_normal) (simp_all add: splitSlash_segments_noSlash)

lemma lastPart_slash:
  assumes "b \<noteq> []" and "CHR ''/'' \<notin> set b"
  shows "lastPart (X @ CHR ''/'' # b) = (Some X, b)"
proof -
  have r: "rev (X @ CHR ''/'' # b) = rev b @ CHR ''/'' # rev X" by simp
  have "last b \<noteq> CHR ''/''"
    using last_in_set [OF assms(1)] assms(2) by metis
  then have h: "rev b \<noteq> []" "hd (rev b) \<noteq> CHR ''/''"
    using assms(1) by (simp_all add: hd_rev)
  have d: "dropWhile (\<lambda>c. c = CHR ''/'') (rev b @ CHR ''/'' # rev X) = rev b @ CHR ''/'' # rev X"
    using h by (cases "rev b") auto
  have "takeWhile (\<lambda>c. c \<noteq> CHR ''/'') (rev b @ CHR ''/'' # rev X)
      = rev b @ takeWhile (\<lambda>c. c \<noteq> CHR ''/'') (CHR ''/'' # rev X)"
    by (rule takeWhile_append2) (use assms(2) in auto)
  then have t: "takeWhile (\<lambda>c. c \<noteq> CHR ''/'') (rev b @ CHR ''/'' # rev X) = rev b"
    by simp
  have "dropWhile (\<lambda>c. c \<noteq> CHR ''/'') (rev b @ CHR ''/'' # rev X)
      = dropWhile (\<lambda>c. c \<noteq> CHR ''/'') (CHR ''/'' # rev X)"
    by (rule dropWhile_append2) (use assms(2) in auto)
  then have e: "dropWhile (\<lambda>c. c \<noteq> CHR ''/'') (rev b @ CHR ''/'' # rev X) = CHR ''/'' # rev X"
    by simp
  show ?thesis
    unfolding lastPart_def r Let_def d t e by simp
qed

lemma lastPart_single:
  assumes "b \<noteq> []" and "CHR ''/'' \<notin> set b"
  shows "lastPart b = (None, b)"
proof -
  have "last b \<noteq> CHR ''/''"
    using last_in_set [OF assms(1)] assms(2) by metis
  then have h: "rev b \<noteq> []" "hd (rev b) \<noteq> CHR ''/''"
    using assms(1) by (simp_all add: hd_rev)
  have d: "dropWhile (\<lambda>c. c = CHR ''/'') (rev b) = rev b"
    using h by (cases "rev b") auto
  have t: "takeWhile (\<lambda>c. c \<noteq> CHR ''/'') (rev b) = rev b"
    using assms(2) by (auto simp: takeWhile_eq_all_conv)
  have e: "dropWhile (\<lambda>c. c \<noteq> CHR ''/'') (rev b) = []"
    using assms(2) by auto
  show ?thesis
    unfolding lastPart_def Let_def d t e by simp
qed

lemma splitExt_not_dotdot: "b \<noteq> ''..'' \<Longrightarrow> splitExt r b = splitExt False b"
  by (simp add: splitExt_def Let_def)

lemma splitExt_append: "fst (splitExt r b) @ snd (splitExt r b) = b"
  by (simp add: splitExt_def Let_def)

text \<open>What \<open>parse\<close> returns for a path with a last component \<open>b\<close>.\<close>

lemma parse_single:
  assumes "b \<noteq> []" and "CHR ''/'' \<notin> set b"
  shows "parse b = \<lparr>root = [], dir = [], base = b, ext = snd (splitExt False b),
                    name = fst (splitExt False b)\<rparr>"
proof -
  from assms have "hd b \<noteq> CHR ''/''" by (cases b) auto
  then show ?thesis
    using assms by (simp add: parse_def lastPart_single split_beta Let_def)
qed

lemma parse_root_single:
  assumes "b \<noteq> []" and "CHR ''/'' \<notin> set b"
  shows "parse (CHR ''/'' # b) = \<lparr>root = ''/'', dir = ''/'', base = b, ext = snd (splitExt True b),
                    name = fst (splitExt True b)\<rparr>"
  using assms by (simp add: parse_def lastPart_single split_beta Let_def)

lemma parse_dir_base:
  assumes "b \<noteq> []" and "CHR ''/'' \<notin> set b" and "D \<noteq> []"
  shows "parse (D @ CHR ''/'' # b) =
     \<lparr>root = (if hd D = CHR ''/'' then ''/'' else []), dir = D, base = b,
      ext = snd (splitExt False b), name = fst (splitExt False b)\<rparr>"
proof (cases "hd D = CHR ''/''")
  case True
  with assms(3) obtain D' where D: "D = CHR ''/'' # D'" by (cases D) auto
  show ?thesis
    using assms(1,2) lastPart_slash [OF assms(1,2), of D']
    by (simp add: parse_def D split_beta Let_def)
next
  case False
  with assms(3) have "hd (D @ CHR ''/'' # b) \<noteq> CHR ''/''" by (cases D) auto
  then show ?thesis
    using assms False lastPart_slash [OF assms(1,2), of D]
    by (simp add: parse_def split_beta Let_def)
qed

lemma parse_last:
  assumes "b \<noteq> []" and "CHR ''/'' \<notin> set b" and "b \<noteq> ''..''"
    and "s = b \<or> (\<exists>X. s = X @ CHR ''/'' # b)"
  shows "base (parse s) = b \<and> ext (parse s) = snd (splitExt False b) \<and>
    name (parse s) = fst (splitExt False b)"
proof (cases "s = b")
  case True
  then show ?thesis using parse_single [OF assms(1,2)] by simp
next
  case False
  with assms(4) obtain X where X: "s = X @ CHR ''/'' # b" by blast
  show ?thesis
  proof (cases "X = []")
    case True
    with X show ?thesis
      using parse_root_single [OF assms(1,2)] splitExt_not_dotdot [OF assms(3), of True] by simp
  next
    case False
    then show ?thesis using parse_dir_base [OF assms(1,2) False] X by simp
  qed
qed

text \<open>The last segment of a path that does not end with a separator.\<close>

lemma joinSlash_splitSlash: "joinSlash (splitSlash p) = p"
proof (induction p)
  case Nil
  show ?case by simp
next
  case (Cons c p)
  obtain x xs where x: "splitSlash p = x # xs" by (cases "splitSlash p") auto
  with Cons show ?case by (auto simp: joinSlash_Cons split: if_splits)
qed



lemma resolveImportPath_loop_Some:
  assumes "resolveImportPath_loop cwd importPath pathsMap aliases = Some r"
  shows "\<exists>k d. map_of pathsMap k = Some d \<and> d \<noteq> [] \<and> startsWith importPath k \<and>
    r = resolve cwd [d, drop (length k) importPath]"
  using assms
proof (induction aliases)
  case Nil
  then show ?case by simp
next
  case (Cons k aliases)
  then show ?case
    by (auto split: if_splits option.splits)
qed

lemma resolveImportPath_cases:
  "resolveImportPath cwd importPath filePath pathsMap = resolve cwd [dirname filePath, importPath] \<or>
   (\<exists>k d. (k, d) \<in> set pathsMap \<and> d \<noteq> [] \<and> startsWith importPath k \<and>
      resolveImportPath cwd importPath filePath pathsMap = resolve cwd [d, drop (length k) importPath])"
proof (cases "resolveImportPath_loop cwd importPath pathsMap
    (sort_key (\<lambda>a. - int (length a)) (map fst pathsMap))")
  case None
  then show ?thesis by (simp add: resolveImportPath_def)
next
  case (Some r)
  from resolveImportPath_loop_Some [OF Some] obtain k d where
    "map_of pathsMap k = Some d" "d \<noteq> []" "startsWith importPath k"
    "r = resolve cwd [d, drop (length k) importPath]"
    by blast
  moreover from this have "(k, d) \<in> set pathsMap" by (simp add: map_of_SomeD)
  ultimately show ?thesis using Some by (auto simp: resolveImportPath_def)
qed

lemma format_parse_last:
  assumes "b \<noteq> []" and "CHR ''/'' \<notin> set b" and "p = b \<or> (\<exists>X. p = X @ CHR ''/'' # b)"
    and "hd p \<noteq> CHR ''/''"
  shows "format (parse p) = p"
proof (cases "p = b")
  case True
  show ?thesis
    unfolding True using assms(1) by (simp add: parse_single [OF assms(1,2)] format_def)
next
  case False
  with assms(3) obtain X where X: "p = X @ CHR ''/'' # b" by blast
  with assms(4) have "X \<noteq> []" "hd X \<noteq> CHR ''/''" by (cases X; simp)+
  then show ?thesis
    unfolding X using assms(1) by (simp add: parse_dir_base [OF assms(1,2)] format_def)
qed


section \<open>Specifiers with an extension outside the lookup set\<close>





section \<open>Resolved paths and the alias rewriter\<close>

lemma resolve_loop_last:
  assumes "y \<noteq> []" and "last (splitSlash y) = b"
  shows "\<exists>pre. splitSlash (fst (resolve_loop (y # paths) [])) = pre @ [b] @ [[]]"
proof -
  obtain p a where r: "resolve_loop (y # paths) [] = (p, a)"
    by (cases "resolve_loop (y # paths) []")
  have "\<exists>Q. p = Q @ y @ ''/'' \<and> (Q = [] \<or> (\<exists>Q0. Q = Q0 @ ''/''))"
  proof (cases "hd y = CHR ''/''")
    case True
    with r assms(1) have "p = [] @ y @ ''/''" by simp
    then show ?thesis by blast
  next
    case False
    with r assms(1) have "(p, a) = resolve_loop paths (y @ ''/'')" by simp
    also have "\<dots> = (fst (resolve_loop paths []) @ y @ ''/'', snd (resolve_loop paths []))"
      by (rule resolve_loop_acc)
    finally have "p = fst (resolve_loop paths []) @ y @ ''/''" by simp
    with resolve_loop_ends_with_slash [of paths] show ?thesis by blast
  qed
  then obtain Q where p: "p = Q @ y @ ''/''" and Q: "Q = [] \<or> (\<exists>Q0. Q = Q0 @ ''/'')"
    by blast
  have y: "splitSlash y = butlast (splitSlash y) @ [b]"
    using assms(2) append_butlast_last_id [of "splitSlash y"] by simp
  have ys: "splitSlash (y @ ''/'') = butlast (splitSlash y) @ [b] @ [[]]"
    using splitSlash_append_slash [of y "[]"] y by simp
  have "\<exists>pre. splitSlash p = pre @ [b] @ [[]]"
  proof (cases "Q = []")
    case True
    with p ys show ?thesis by auto
  next
    case False
    with Q obtain Q0 where "Q = Q0 @ ''/''" by blast
    with p have "p = Q0 @ CHR ''/'' # (y @ ''/'')" by simp
    then have "splitSlash p = (splitSlash Q0 @ butlast (splitSlash y)) @ [b] @ [[]]"
      using splitSlash_append_slash [of Q0 "y @ ''/''"] ys by simp
    then show ?thesis by blast
  qed
  with r show ?thesis by simp
qed

lemma resolve_absolute_last:
  assumes "cwd \<noteq> []" and "hd cwd = CHR ''/''"
    and "y \<noteq> []" and "last (splitSlash y) = b" and "normalSegment b"
  shows "\<exists>xs. (\<forall>s \<in> set xs. normalSegment s) \<and>
    resolve cwd (args @ [y]) = CHR ''/'' # joinSlash (xs @ [b])"
proof -
  from resolve_loop_last [OF assms(3,4), of "rev args @ [cwd]"]
  obtain pre where pre: "splitSlash (fst (resolve_loop (rev (args @ [y]) @ [cwd]) [])) = pre @ [b] @ [[]]"
    by auto
  let ?xs = "foldl (normalizeStep False) [] pre"
  have "\<forall>seg \<in> set pre. CHR ''/'' \<notin> set seg"
    using splitSlash_segments_noSlash [of _ "fst (resolve_loop (rev (args @ [y]) @ [cwd]) [])"]
    unfolding pre by simp
  then have n: "\<forall>s \<in> set ?xs. normalSegment s"
    by (intro foldl_normalizeStep_keeps_normal) simp_all
  have "resolvedSegments cwd (args @ [y]) = ?xs @ [b]"
    unfolding resolvedSegments_def pre by (simp add: normalizeStep_normal [OF assms(5)])
  with resolve_absolute [OF assms(1,2), of "args @ [y]"] n show ?thesis by auto
qed

lemma joinSlash_normal_not_Nil:
  assumes "xs \<noteq> []" and "\<forall>s \<in> set xs. normalSegment s"
  shows "joinSlash xs \<noteq> []" and "hd (joinSlash xs) \<noteq> CHR ''/''"
proof -
  from assms obtain x xs' where x: "xs = x # xs'" "x \<noteq> []" "CHR ''/'' \<notin> set x"
    by (cases xs) (auto simp: normalSegment_def)
  then have "hd x \<noteq> CHR ''/''" by (cases x) auto
  with x show "joinSlash xs \<noteq> []" and "hd (joinSlash xs) \<noteq> CHR ''/''"
    by (simp_all add: joinSlash_Cons)
qed

lemma normalSegment_noSlash:
  "\<forall>s \<in> set xs. normalSegment s \<Longrightarrow> \<forall>s \<in> set xs. CHR ''/'' \<notin> set s"
  by (simp add: normalSegment_def)

lemma parse_normalized:
  assumes "\<forall>s \<in> set xs. normalSegment s" and "normalSegment b"
  shows "parse (CHR ''/'' # joinSlash (xs @ [b])) =
     \<lparr>root = ''/'', dir = (if xs = [] then ''/'' else CHR ''/'' # joinSlash xs), base = b,
      ext = snd (splitExt False b), name = fst (splitExt False b)\<rparr>"
proof -
  from assms(2) have b: "b \<noteq> []" "CHR ''/'' \<notin> set b" "b \<noteq> ''..''"
    by (simp_all add: normalSegment_def)
  show ?thesis
  proof (cases "xs = []")
    case True
    then show ?thesis
      using parse_root_single [OF b(1,2)] splitExt_not_dotdot [OF b(3), of True] by simp
  next
    case False
    then have "CHR ''/'' # joinSlash (xs @ [b]) = (CHR ''/'' # joinSlash xs) @ CHR ''/'' # b"
      by (simp add: joinSlash_snoc)
    with parse_dir_base [OF b(1,2), of "CHR ''/'' # joinSlash xs"] False show ?thesis by simp
  qed
qed

lemma format_normalized:
  assumes "\<forall>s \<in> set xs. normalSegment s" and "normalSegment b"
  shows "format ((parse (CHR ''/'' # joinSlash (xs @ [b])))\<lparr>ext := e, base := bs\<rparr>) =
     CHR ''/'' # joinSlash (xs @ [if bs \<noteq> [] then bs else fst (splitExt False b) @ formatExt e])"
proof (cases "xs = []")
  case True
  then show ?thesis
    unfolding parse_normalized [OF assms] by (simp add: format_def)
next
  case False
  have "joinSlash xs \<noteq> []" by (rule joinSlash_normal_not_Nil(1) [OF False assms(1)])
  with False show ?thesis
    unfolding parse_normalized [OF assms] by (simp add: format_def joinSlash_snoc)
qed

lemma format_parse_normalized:
  assumes "\<forall>s \<in> set xs. normalSegment s" and "normalSegment b"
  shows "format (parse (CHR ''/'' # joinSlash (xs @ [b]))) = CHR ''/'' # joinSlash (xs @ [b])"
proof -
  from assms(2) have "b \<noteq> []" by (simp add: normalSegment_def)
  with format_normalized [OF assms, where bs = b and e = "snd (splitExt False b)"]
  show ?thesis unfolding parse_normalized [OF assms] by simp
qed

lemma segments_normalized:
  assumes "\<forall>s \<in> set xs. normalSegment s"
  shows "segments (CHR ''/'' # joinSlash xs) = xs"
proof (cases "xs = []")
  case True
  then show ?thesis by (simp add: segments_def)
next
  case False
  have ne: "\<forall>s \<in> set xs. s \<noteq> []" using assms by (simp add: normalSegment_def)
  have "splitSlash (joinSlash xs) = xs"
    using False normalSegment_noSlash [OF assms] by (rule splitSlash_joinSlash)
  then have "segments (CHR ''/'' # joinSlash xs) = filter (\<lambda>s. s \<noteq> []) xs"
    by (simp add: segments_def)
  also have "\<dots> = xs" using ne by (simp add: filter_id_conv)
  finally show ?thesis .
qed

lemma resolvedSegments_normalized:
  assumes "\<forall>s \<in> set xs. normalSegment s"
  shows "resolvedSegments cwd [CHR ''/'' # joinSlash xs] = xs"
proof -
  have "splitSlash ((CHR ''/'' # joinSlash xs) @ ''/'')
      = splitSlash (CHR ''/'' # joinSlash xs) @ [[]]"
    using splitSlash_append_slash [of "CHR ''/'' # joinSlash xs" "[]"] by simp
  moreover have "foldl (normalizeStep False) [] (splitSlash (CHR ''/'' # joinSlash xs)) = xs"
  proof (cases "xs = []")
    case True
    then show ?thesis by simp
  next
    case False
    then have "splitSlash (joinSlash xs) = xs"
      using normalSegment_noSlash [OF assms] by (rule splitSlash_joinSlash)
    then show ?thesis
      using foldl_normalizeStep_normal [OF assms, of False "[]"] by simp
  qed
  ultimately show ?thesis
    by (simp add: resolvedSegments_def)
qed

lemma resolve_normalized:
  assumes "\<forall>s \<in> set xs. normalSegment s"
  shows "resolve cwd [CHR ''/'' # joinSlash xs] = CHR ''/'' # joinSlash xs"
proof -
  have "resolve_loop (rev [CHR ''/'' # joinSlash xs] @ [cwd]) [] = ((CHR ''/'' # joinSlash xs) @ ''/'', True)"
    by simp
  then have "resolve cwd [CHR ''/'' # joinSlash xs]
      = CHR ''/'' # joinSlash (resolvedSegments cwd [CHR ''/'' # joinSlash xs])"
    unfolding resolve_def resolvedSegments_def normalizeString_def by simp
  then show ?thesis by (simp add: resolvedSegments_normalized [OF assms])
qed

lemma resolvedSegments_two:
  assumes "y \<noteq> []" and "hd y \<noteq> CHR ''/''"
  shows "resolvedSegments cwd [x, y]
    = foldl (normalizeStep False) (resolvedSegments cwd [x]) (splitSlash y)"
proof -
  let ?P = "fst (resolve_loop [x, cwd] [])"
  have "resolve_loop (rev [x, y] @ [cwd]) [] = resolve_loop [x, cwd] (y @ ''/'')"
    using assms by simp
  also have "\<dots> = (?P @ y @ ''/'', snd (resolve_loop [x, cwd] []))"
    by (rule resolve_loop_acc)
  finally have p: "fst (resolve_loop (rev [x, y] @ [cwd]) []) = ?P @ y @ ''/''" by simp
  have ys: "splitSlash (y @ ''/'') = splitSlash y @ [[]]"
    using splitSlash_append_slash [of y "[]"] by simp
  have "foldl (normalizeStep False) [] (splitSlash (?P @ y @ ''/''))
      = foldl (normalizeStep False) (foldl (normalizeStep False) [] (splitSlash ?P)) (splitSlash y)"
  proof (cases "?P = []")
    case True
    then show ?thesis by (simp add: ys)
  next
    case False
    with resolve_loop_ends_with_slash [of "[x, cwd]"] obtain P0 where P0: "?P = P0 @ ''/''"
      by blast
    have "splitSlash (?P @ y @ ''/'') = splitSlash P0 @ splitSlash y @ [[]]"
      unfolding P0 using splitSlash_append_slash [of P0 "y @ ''/''"] ys by simp
    moreover have "splitSlash ?P = splitSlash P0 @ [[]]"
      unfolding P0 using splitSlash_append_slash [of P0 "[]"] by simp
    ultimately show ?thesis by simp
  qed
  then show ?thesis
    unfolding resolvedSegments_def p by simp
qed

lemma commonPrefixLength_le: "commonPrefixLength xs ys \<le> length xs"
  by (induction xs ys rule: commonPrefixLength.induct) simp_all

lemma commonPrefixLength_append: "commonPrefixLength xs (xs @ ys) = length xs"
  by (induction xs) simp_all

lemma commonPrefixLength_full:
  "commonPrefixLength xs ys = length xs \<Longrightarrow> ys = xs @ drop (length xs) ys"
  by (induction xs ys rule: commonPrefixLength.induct) (auto split: if_splits)

lemma startsWith_dotdot_joinSlash: "startsWith (joinSlash (''..'' # zs)) ''..''"
  by (simp add: joinSlash_Cons startsWith_def)

lemma joinSlash_inject_normalized:
  assumes "\<forall>s \<in> set xs. normalSegment s" and "\<forall>s \<in> set ys. normalSegment s"
    and "joinSlash xs = joinSlash ys"
  shows "xs = ys"
proof -
  have "segments (CHR ''/'' # joinSlash xs) = segments (CHR ''/'' # joinSlash ys)"
    using assms(3) by simp
  then show ?thesis
    by (simp add: segments_normalized [OF assms(1)] segments_normalized [OF assms(2)])
qed

text \<open>\<open>relative\<close> for an absolute working directory and a normalised absolute target.\<close>

lemma relative_absolute:
  assumes "cwd \<noteq> []" and "hd cwd = CHR ''/''" and "\<forall>s \<in> set ys. normalSegment s"
  shows "relative cwd aliasDir (CHR ''/'' # joinSlash ys) =
     (if aliasDir = CHR ''/'' # joinSlash ys \<or> resolvedSegments cwd [aliasDir] = ys then []
      else joinSlash
        (replicate (length (resolvedSegments cwd [aliasDir])
                      - commonPrefixLength (resolvedSegments cwd [aliasDir]) ys) ''..''
         @ drop (commonPrefixLength (resolvedSegments cwd [aliasDir]) ys) ys))"
proof -
  let ?As = "resolvedSegments cwd [aliasDir]"
  have f: "resolve cwd [aliasDir] = CHR ''/'' # joinSlash ?As"
    by (rule resolve_absolute [OF assms(1,2)])
  have t: "resolve cwd [CHR ''/'' # joinSlash ys] = CHR ''/'' # joinSlash ys"
    by (rule resolve_normalized [OF assms(3)])
  have n: "\<forall>s \<in> set ?As. normalSegment s" by (rule resolvedSegments_normal)
  have eq: "joinSlash ?As = joinSlash ys \<longleftrightarrow> ?As = ys"
    using joinSlash_inject_normalized [OF n assms(3)] by auto
  show ?thesis
    unfolding relative_def f t Let_def
    by (simp add: segments_normalized [OF n] segments_normalized [OF assms(3)] eq)
qed

lemma relative_under_elim:
  assumes "cwd \<noteq> []" and "hd cwd = CHR ''/''" and "\<forall>s \<in> set ys. normalSegment s"
    and "relative cwd aliasDir (CHR ''/'' # joinSlash ys) \<noteq> []"
    and "\<not> startsWith (relative cwd aliasDir (CHR ''/'' # joinSlash ys)) ''..''"
  shows "\<exists>rs. rs \<noteq> [] \<and> ys = resolvedSegments cwd [aliasDir] @ rs \<and>
    relative cwd aliasDir (CHR ''/'' # joinSlash ys) = joinSlash rs"
proof -
  let ?As = "resolvedSegments cwd [aliasDir]"
  let ?n = "commonPrefixLength ?As ys"
  let ?r = "relative cwd aliasDir (CHR ''/'' # joinSlash ys)"
  from assms(4) have r: "?r = joinSlash (replicate (length ?As - ?n) ''..'' @ drop ?n ys)"
    unfolding relative_absolute [OF assms(1,2,3)] by (simp split: if_splits)
  have "length ?As - ?n = 0"
  proof (rule ccontr)
    assume "length ?As - ?n \<noteq> 0"
    then obtain m where "length ?As - ?n = Suc m" by (cases "length ?As - ?n") auto
    then have "?r = joinSlash (''..'' # (replicate m ''..'' @ drop ?n ys))"
      using r by simp
    with startsWith_dotdot_joinSlash assms(5) show False by simp
  qed
  with commonPrefixLength_le [of ?As ys] have n: "?n = length ?As" by simp
  from commonPrefixLength_full [OF n] have ys: "ys = ?As @ drop (length ?As) ys" .
  from r n have rr: "?r = joinSlash (drop (length ?As) ys)" by simp
  with assms(4) have "drop (length ?As) ys \<noteq> []" by auto
  with ys rr show ?thesis by blast
qed

lemma relative_under_intro:
  assumes "cwd \<noteq> []" and "hd cwd = CHR ''/''"
    and "\<forall>s \<in> set rs. normalSegment s" and "rs \<noteq> []"
  shows "relative cwd aliasDir (CHR ''/'' # joinSlash (resolvedSegments cwd [aliasDir] @ rs))
    = joinSlash rs"
proof -
  let ?As = "resolvedSegments cwd [aliasDir]"
  have n: "\<forall>s \<in> set (?As @ rs). normalSegment s"
    using resolvedSegments_normal [of cwd "[aliasDir]"] assms(3) by auto
  have ne: "aliasDir \<noteq> CHR ''/'' # joinSlash (?As @ rs)"
  proof
    assume "aliasDir = CHR ''/'' # joinSlash (?As @ rs)"
    then have "?As = resolvedSegments cwd [CHR ''/'' # joinSlash (?As @ rs)]" by simp
    also have "\<dots> = ?As @ rs" by (rule resolvedSegments_normalized [OF n])
    finally show False using assms(4) by simp
  qed
  show ?thesis
    unfolding relative_absolute [OF assms(1,2) n]
    using ne assms(4) by (simp add: commonPrefixLength_append)
qed

lemma getAliasPathParts_loop_find:
  "getAliasPathParts_loop cwd importPath pathsMap =
     (case find (\<lambda>(k, d). \<not> startsWith (relative cwd d importPath) ''..'') pathsMap of
        None \<Rightarrow> None
      | Some (k, d) \<Rightarrow> Some (dir (parse (k @ relative cwd d importPath))))"
  by (induction pathsMap) (auto simp: Let_def)

lemma find_SomeD: "find P xs = Some x \<Longrightarrow> x \<in> set xs \<and> P x"
  by (induction xs) (auto split: if_splits)

lemma find_sorted_key:
  assumes "sorted (map f xs)" and "find P xs = Some x" and "y \<in> set xs" and "P y"
  shows "f x \<le> (f y :: int)"
  using assms by (induction xs) (auto split: if_splits)

lemma resolver_picks_longest:
  fixes pathsMap :: PathsMap
  assumes "distinct (map fst pathsMap)" and "(a, aliasDir) \<in> set pathsMap"
    and "startsWith s a"
    and "\<forall>(k, d) \<in> set pathsMap. startsWith s k \<longrightarrow> length k \<le> length a"
  shows "find (\<lambda>(k, d). startsWith s k) (sort_key (\<lambda>(k, d). - int (length k)) pathsMap)
    = Some (a, aliasDir)"
proof -
  let ?f = "(\<lambda>(k, d). - int (length k)) :: string \<times> string \<Rightarrow> int"
  let ?P = "(\<lambda>(k, d). startsWith s k) :: string \<times> string \<Rightarrow> bool"
  let ?xs = "sort_key ?f pathsMap"
  have mem: "(a, aliasDir) \<in> set ?xs" using assms(2) by simp
  have Pa: "?P (a, aliasDir)" using assms(3) by simp
  from mem Pa have "find ?P ?xs \<noteq> None" by (auto simp: find_None_iff)
  then obtain k d where kd: "find ?P ?xs = Some (k, d)" by (cases "find ?P ?xs") auto
  from find_SomeD [OF kd] have Pk: "startsWith s k" and kmem: "(k, d) \<in> set pathsMap"
    by simp_all
  have "?f (k, d) \<le> ?f (a, aliasDir)"
    by (rule find_sorted_key [OF _ kd mem Pa]) (rule sorted_sort_key)
  then have "length a \<le> length k" by simp
  moreover from assms(4) kmem Pk have "length k \<le> length a" by auto
  ultimately have "length k = length a" by simp
  with Pk assms(3) have "k = a" by (simp add: startsWith_def)
  with kmem assms(1,2) have "d = aliasDir"
    by (metis map_of_is_SomeI option.inject)
  with kd \<open>k = a\<close> show ?thesis by simp
qed

lemma getNewExtensionPathParts_cases:
  "getNewExtensionPathParts exists parts = None \<or>
   (getNewExtensionPathParts exists parts = Some (ext parts, base parts) \<and> base parts \<noteq> []) \<or>
   (\<exists>e \<in> set ALLOWED_EXTENSIONS. getNewExtensionPathParts exists parts = Some (e, [])) \<or>
   base parts = []"
proof (cases "ext parts \<in> set tsExtensionLookups")
  case False
  then show ?thesis by (auto simp: getNewExtensionPathParts_def)
next
  case True
  then have "getNewExtensionPathParts exists parts =
     (case find (\<lambda>e. exists (format (parts\<lparr>ext := e, base := []\<rparr>))) ALLOWED_EXTENSIONS of
        None \<Rightarrow> None | Some e \<Rightarrow> Some (e, []))"
    by (simp add: getNewExtensionPathParts_def probeExtensions_find)
  then show ?thesis
    by (auto split: option.splits dest: find_SomeD)
qed

section \<open>The round trip of the alias rewrite\<close>

lemma splitSlash_trailing_slash: "last (splitSlash (k0 @ ''/'')) = []"
  using splitSlash_append_slash [of k0 "[]"] by simp

lemma resolveImportPath_normalized:
  assumes "cwd \<noteq> []" and "hd cwd = CHR ''/''"
    and "\<forall>(k, d) \<in> set pathsMap. endsWith k ''/''"
    and "last (splitSlash importPath) = b" and "normalSegment b"
  shows "\<exists>xs. (\<forall>s \<in> set xs. normalSegment s) \<and>
    resolveImportPath cwd importPath filePath pathsMap = CHR ''/'' # joinSlash (xs @ [b])"
proof -
  let ?R = "resolveImportPath cwd importPath filePath pathsMap"
  have b: "b \<noteq> []" using assms(5) by (simp add: normalSegment_def)
  have ne: "importPath \<noteq> []" using assms(4) b by auto
  from resolveImportPath_cases [of cwd importPath filePath pathsMap]
  consider "?R = resolve cwd ([dirname filePath] @ [importPath])"
    | k d where "(k, d) \<in> set pathsMap" "startsWith importPath k"
        "?R = resolve cwd ([d] @ [drop (length k) importPath])"
    by auto
  then show ?thesis
  proof cases
    case 1
    show ?thesis
      unfolding 1 by (rule resolve_absolute_last [OF assms(1,2) ne assms(4,5)])
  next
    case 2
    from 2(1) assms(3) have "endsWith k ''/''" by auto
    then obtain k0 where k: "k = k0 @ ''/''" by (auto simp: endsWith_iff)
    from 2(2) obtain rest where ip: "importPath = k @ rest" by (auto simp: startsWith_iff)
    then have rest: "drop (length k) importPath = rest" by simp
    have "rest \<noteq> []"
    proof
      assume "rest = []"
      with ip k have "importPath = k0 @ ''/''" by simp
      with splitSlash_trailing_slash [of k0] assms(4) b show False by simp
    qed
    moreover have "last (splitSlash rest) = b"
    proof -
      have "importPath = k0 @ CHR ''/'' # rest" using ip k by simp
      then have "splitSlash importPath = splitSlash k0 @ splitSlash rest"
        by (simp add: splitSlash_append_slash)
      with assms(4) show ?thesis by simp
    qed
    ultimately show ?thesis
      unfolding 2(3) rest using assms(1,2,5) by (intro resolve_absolute_last)
  qed
qed

lemma parse_relative_import:
  assumes "isRelativeImport importPath"
    and "last (splitSlash importPath) = b" and "normalSegment b"
  shows "\<exists>X. X \<noteq> [] \<and> importPath = X @ CHR ''/'' # b \<and>
    parse importPath = \<lparr>root = [], dir = X, base = b, ext = snd (splitExt False b),
                         name = fst (splitExt False b)\<rparr>"
proof -
  from assms(3) have b: "b \<noteq> []" "CHR ''/'' \<notin> set b" by (simp_all add: normalSegment_def)
  from assms(1) obtain t where "importPath = ''./'' @ t \<or> importPath = ''../'' @ t"
    by (auto simp: isRelativeImport_def startsWith_iff)
  then have sl: "CHR ''/'' \<in> set importPath" and hd: "hd importPath = CHR ''.''"
    by auto
  let ?ys = "butlast (splitSlash importPath)"
  have "splitSlash importPath = ?ys @ [b]"
    using assms(2) append_butlast_last_id [of "splitSlash importPath"] by simp
  then have "joinSlash (?ys @ [b]) = importPath"
    using joinSlash_splitSlash [of importPath] by simp
  then have p: "importPath = (if ?ys = [] then b else joinSlash ?ys @ CHR ''/'' # b)"
    by (simp only: joinSlash_snoc)
  have "?ys \<noteq> []"
  proof
    assume "?ys = []"
    with p have "importPath = b" by simp
    with sl b(2) show False by simp
  qed
  with p have X: "importPath = joinSlash ?ys @ CHR ''/'' # b" by simp
  have Xne: "joinSlash ?ys \<noteq> []"
  proof
    assume "joinSlash ?ys = []"
    with X have "hd importPath = CHR ''/''" by simp
    with hd show False by simp
  qed
  then have "hd (joinSlash ?ys) = CHR ''.''"
    using X hd by (cases "joinSlash ?ys") auto
  then have "parse (joinSlash ?ys @ CHR ''/'' # b) =
      \<lparr>root = [], dir = joinSlash ?ys, base = b, ext = snd (splitExt False b),
       name = fst (splitExt False b)\<rparr>"
    using parse_dir_base [OF b Xne] by simp
  with X Xne show ?thesis by metis
qed

lemma normalSegment_with_extension:
  assumes "normalSegment b" and "e \<in> set ALLOWED_EXTENSIONS"
  shows "normalSegment (fst (splitExt False b) @ formatExt e)"
proof -
  from assms(2) have e: "formatExt e = e" "3 \<le> length e" "CHR ''/'' \<notin> set e"
    by (auto simp: ALLOWED_EXTENSIONS_def formatExt_def)
  have "set (fst (splitExt False b)) \<subseteq> set b"
    using splitExt_append [of False b] by (metis set_append Un_upper1)
  with assms(1) have "CHR ''/'' \<notin> set (fst (splitExt False b))"
    by (auto simp: normalSegment_def)
  moreover have l: "3 \<le> length (fst (splitExt False b) @ e)" using e(2) by simp
  moreover have "fst (splitExt False b) @ e \<noteq> ''.''" "fst (splitExt False b) @ e \<noteq> ''..''"
    "fst (splitExt False b) @ e \<noteq> []"
    using l by (auto simp del: length_append)
  ultimately show ?thesis
    unfolding e(1) normalSegment_def using e(3) by simp
qed

text \<open>
  After the extension step the last component that \<open>format\<close> writes for the new parts is
  the last segment of the target, and that segment is normal.
\<close>

lemma extensionStep_last_component:
  assumes xs: "\<forall>s \<in> set xs. normalSegment s" and b: "normalSegment b"
    and R: "R = CHR ''/'' # joinSlash (xs @ [b])"
    and P: "base P = b" "name P = fst (splitExt False b)" "ext P = snd (splitExt False b)"
  shows "\<exists>b'. normalSegment b' \<and>
    extensionTarget exists R = CHR ''/'' # joinSlash (xs @ [b']) \<and>
    (let P1 = fst (extensionStep exists importPath (parse R) P)
     in (if base P1 \<noteq> [] then base P1 else name P1 @ formatExt (ext P1)) = b' \<and>
        root P1 = root P \<and> dir P1 = dir P)"
proof -
  have bne: "b \<noteq> []" using b by (simp add: normalSegment_def)
  have pR: "parse R = \<lparr>root = ''/'', dir = (if xs = [] then ''/'' else CHR ''/'' # joinSlash xs),
      base = b, ext = snd (splitExt False b), name = fst (splitExt False b)\<rparr>"
    unfolding R by (rule parse_normalized [OF xs b])
  then have baseR: "base (parse R) = b" "ext (parse R) = snd (splitExt False b)" by simp_all
  from getNewExtensionPathParts_cases [of exists "parse R"] bne baseR
  consider "getNewExtensionPathParts exists (parse R) = None"
    | "getNewExtensionPathParts exists (parse R) = Some (snd (splitExt False b), b)"
    | e where "e \<in> set ALLOWED_EXTENSIONS" "getNewExtensionPathParts exists (parse R) = Some (e, [])"
    by auto
  then show ?thesis
  proof cases
    case 1
    have "extensionTarget exists R = CHR ''/'' # joinSlash (xs @ [b])"
      using 1 R by (simp add: extensionTarget_def)
    moreover have "fst (extensionStep exists importPath (parse R) P) = P"
      using 1 by (simp add: extensionStep_def)
    ultimately show ?thesis using b bne P by (auto simp: Let_def)
  next
    case 2
    have "extensionTarget exists R = CHR ''/'' # joinSlash (xs @ [b])"
      using 2 bne format_normalized [OF xs b, where e = "snd (splitExt False b)" and bs = b]
      by (simp add: extensionTarget_def R)
    moreover have "fst (extensionStep exists importPath (parse R) P)
        = P\<lparr>ext := snd (splitExt False b), base := b\<rparr>"
      using 2 by (simp add: extensionStep_def)
    ultimately show ?thesis using b bne P by (auto simp: Let_def)
  next
    case 3
    let ?b' = "fst (splitExt False b) @ formatExt e"
    have n: "normalSegment ?b'" by (rule normalSegment_with_extension [OF b 3(1)])
    have "extensionTarget exists R = CHR ''/'' # joinSlash (xs @ [?b'])"
      using 3(2) format_normalized [OF xs b, where e = e and bs = "[]"]
      by (simp add: extensionTarget_def R)
    moreover have "fst (extensionStep exists importPath (parse R) P) = P\<lparr>ext := e, base := []\<rparr>"
      using 3(2) by (simp add: extensionStep_def)
    ultimately show ?thesis using n P by (auto simp: Let_def)
  qed
qed

lemma alias_rewrite_core:
  assumes cwd: "cwd \<noteq> []" "hd cwd = CHR ''/''"
    and table: "distinct (map fst pathsMap)" "\<forall>(k, d) \<in> set pathsMap. endsWith k ''/'' \<and> d \<noteq> []"
    and rel: "isRelativeImport importPath"
    and last: "normalSegment (last (splitSlash importPath))"
    and opts: "\<not> skipAlias opts" "\<not> isIgnored (importIgnoreStrings opts) importPath"
    and cover: "find (\<lambda>(k, d). \<not> startsWith
          (relative cwd d (resolveImportPath cwd importPath filePath pathsMap)) ''..'') pathsMap
        = Some (a, aliasDir)"
    and under: "relative cwd aliasDir (resolveImportPath cwd importPath filePath pathsMap) \<noteq> []"
    and a: "a \<noteq> ''/''"
  shows "\<exists>rs b'. (\<forall>s \<in> set rs. normalSegment s) \<and> normalSegment b' \<and>
    extensionTarget exists (resolveImportPath cwd importPath filePath pathsMap)
      = CHR ''/'' # joinSlash (resolvedSegments cwd [aliasDir] @ rs @ [b']) \<and>
    newImportPathOf cwd exists pathsMap opts filePath importPath = a @ joinSlash (rs @ [b'])"
proof -
  let ?R = "resolveImportPath cwd importPath filePath pathsMap"
  let ?As = "resolvedSegments cwd [aliasDir]"
  define b where "b = last (splitSlash importPath)"
  have b: "normalSegment b" and lb: "last (splitSlash importPath) = b"
    using last by (simp_all add: b_def)
  have bne: "b \<noteq> []" "CHR ''/'' \<notin> set b" using b by (simp_all add: normalSegment_def)
  have keys: "\<forall>(k, d) \<in> set pathsMap. endsWith k ''/''" using table(2) by auto
  \<comment> \<open>the specifier and the resolved path\<close>
  from parse_relative_import [OF rel lb b] obtain X where X: "X \<noteq> []"
    and pI: "parse importPath = \<lparr>root = [], dir = X, base = b, ext = snd (splitExt False b),
                         name = fst (splitExt False b)\<rparr>"
    by blast
  from resolveImportPath_normalized [OF cwd keys lb b, of filePath]
  obtain xs where xs: "\<forall>s \<in> set xs. normalSegment s" and R: "?R = CHR ''/'' # joinSlash (xs @ [b])"
    by blast
  have nxb: "\<forall>s \<in> set (xs @ [b]). normalSegment s" using xs b by simp
  \<comment> \<open>the alias entry that covers the resolved path\<close>
  from find_SomeD [OF cover] have mem: "(a, aliasDir) \<in> set pathsMap"
    and nst: "\<not> startsWith (relative cwd aliasDir ?R) ''..''"
    by simp_all
  from relative_under_elim [OF cwd nxb, of aliasDir] under nst
  obtain rs' where rs': "rs' \<noteq> []" "xs @ [b] = ?As @ rs'"
    and relR: "relative cwd aliasDir ?R = joinSlash rs'"
    unfolding R by blast
  define rs where "rs = butlast rs'"
  have "last rs' = b" using rs' by (metis last_appendR last_snoc)
  then have rs'_eq: "rs' = rs @ [b]"
    using rs'(1) unfolding rs_def by (metis append_butlast_last_id)
  with rs'(2) have xs_eq: "xs = ?As @ rs" by simp
  have nrs: "\<forall>s \<in> set rs. normalSegment s" using xs xs_eq by simp
  \<comment> \<open>the directory that the alias rewriter returns\<close>
  from mem table(2) have "endsWith a ''/''" by auto
  then obtain a0 where a0: "a = a0 @ ''/''" by (auto simp: endsWith_iff)
  with a have a0ne: "a0 \<noteq> []" by auto
  define D where "D = (if rs = [] then a0 else a @ joinSlash rs)"
  have Dne: "D \<noteq> []" using a0ne a0 by (simp add: D_def)
  have Dj: "a @ joinSlash (rs @ [c]) = D @ CHR ''/'' # c" for c
    by (simp add: D_def joinSlash_snoc a0)
  have dirD: "dir (parse (a @ relative cwd aliasDir ?R)) = D"
    unfolding relR rs'_eq Dj using parse_dir_base [OF bne Dne] by simp
  have fR: "format (parse ?R) = ?R"
    unfolding R by (rule format_parse_normalized [OF xs b])
  have gap: "getAliasPathParts cwd (parse ?R) pathsMap = Some D"
    unfolding getAliasPathParts_def Let_def fR getAliasPathParts_loop_find cover
    using dirD by simp
  \<comment> \<open>the extension step\<close>
  obtain P1 e1 where es: "extensionStep exists importPath (parse ?R) (parse importPath) = (P1, e1)"
    by (cases "extensionStep exists importPath (parse ?R) (parse importPath)")
  from extensionStep_last_component [OF xs b R, of "parse importPath" exists importPath] pI
  obtain b' where b': "normalSegment b'"
    and T: "extensionTarget exists ?R = CHR ''/'' # joinSlash (xs @ [b'])"
    and P1: "(if base P1 \<noteq> [] then base P1 else name P1 @ formatExt (ext P1)) = b'"
      "root P1 = []"
    unfolding es by (auto simp: Let_def)
  have al: "aliasStep cwd pathsMap (skipAlias opts) importPath (parse ?R) P1 = (P1\<lparr>dir := D\<rparr>, [])"
    using rel opts(1) gap by (simp add: aliasStep_def)
  have "newImportPartsOf cwd exists pathsMap opts filePath importPath = Some (P1\<lparr>dir := D\<rparr>, e1)"
    using rel opts(2) es al by (simp add: newImportPartsOf_def Let_def)
  then have "newImportPathOf cwd exists pathsMap opts filePath importPath = format (P1\<lparr>dir := D\<rparr>)"
    by (simp add: newImportPathOf_def)
  also have "\<dots> = D @ CHR ''/'' # b'"
    using P1 Dne by (auto simp: format_def split: if_splits)
  also have "\<dots> = a @ joinSlash (rs @ [b'])" by (simp add: Dj)
  finally have new: "newImportPathOf cwd exists pathsMap opts filePath importPath
      = a @ joinSlash (rs @ [b'])" .
  from T xs_eq have "extensionTarget exists ?R = CHR ''/'' # joinSlash (?As @ rs @ [b'])" by simp
  with nrs b' new show ?thesis by blast
qed

text \<open>
  C3, as amended.  Let the working directory be absolute, the keys of the alias table be
  distinct and end with \<^verbatim>\<open>/\<close> and its targets be non-empty (every table of the loader is
  such a table).  Let a relative specifier that is not ignored end in a normal segment
  (a file name: not empty, \<^verbatim>\<open>.\<close> or \<^verbatim>\<open>..\<close>), let \<open>(a, aliasDir)\<close> be the first entry of the
  table whose target directory covers the resolved path, let the resolved path lie
  strictly below that directory, and let \<open>a\<close> not be \<^verbatim>\<open>/\<close>.  Without \<^verbatim>\<open>skipAlias\<close> the
  rewritten specifier is then the alias \<open>a\<close> followed by the path, relative to
  \<open>aliasDir\<close>, of the target file (the resolved path with the extension that the
  extension resolver chose); and if no alias key longer than \<open>a\<close> is a prefix of the
  rewritten specifier, the resolver maps the rewritten specifier to that target file.
\<close>

theorem alias_rewrite_round_trip:
  assumes "cwd \<noteq> []" and "hd cwd = CHR ''/''"
    and "distinct (map fst pathsMap)" and "\<forall>(k, d) \<in> set pathsMap. endsWith k ''/'' \<and> d \<noteq> []"
    and "isRelativeImport importPath"
    and "normalSegment (last (splitSlash importPath))"
    and "\<not> skipAlias opts" and "\<not> isIgnored (importIgnoreStrings opts) importPath"
    and "find (\<lambda>(k, d). \<not> startsWith
          (relative cwd d (resolveImportPath cwd importPath filePath pathsMap)) ''..'') pathsMap
        = Some (a, aliasDir)"
    and "relative cwd aliasDir (resolveImportPath cwd importPath filePath pathsMap) \<noteq> []"
    and "a \<noteq> ''/''"
  shows "newImportPathOf cwd exists pathsMap opts filePath importPath
      = a @ relative cwd aliasDir
              (extensionTarget exists (resolveImportPath cwd importPath filePath pathsMap)) \<and>
    ((\<forall>(k, d) \<in> set pathsMap.
        startsWith (newImportPathOf cwd exists pathsMap opts filePath importPath) k
          \<longrightarrow> length k \<le> length a) \<longrightarrow>
     resolveImportPath cwd (newImportPathOf cwd exists pathsMap opts filePath importPath)
         filePath pathsMap
       = extensionTarget exists (resolveImportPath cwd importPath filePath pathsMap))"
proof -
  let ?R = "resolveImportPath cwd importPath filePath pathsMap"
  let ?As = "resolvedSegments cwd [aliasDir]"
  let ?new = "newImportPathOf cwd exists pathsMap opts filePath importPath"
  from alias_rewrite_core [OF assms, of exists]
  obtain rs b' where rs: "\<forall>s \<in> set rs. normalSegment s" and b': "normalSegment b'"
    and T: "extensionTarget exists ?R = CHR ''/'' # joinSlash (?As @ rs @ [b'])"
    and new: "?new = a @ joinSlash (rs @ [b'])"
    by blast
  have n: "\<forall>s \<in> set (rs @ [b']). normalSegment s" using rs b' by simp
  have ne: "rs @ [b'] \<noteq> []" by simp
  have relT: "relative cwd aliasDir (extensionTarget exists ?R) = joinSlash (rs @ [b'])"
    unfolding T using relative_under_intro [OF assms(1,2) n ne, of aliasDir] by simp
  have first: "?new = a @ relative cwd aliasDir (extensionTarget exists ?R)"
    unfolding relT by (rule new)
  have second: "resolveImportPath cwd ?new filePath pathsMap = extensionTarget exists ?R"
    if longest: "\<forall>(k, d) \<in> set pathsMap. startsWith ?new k \<longrightarrow> length k \<le> length a"
  proof -
    from find_SomeD [OF assms(9)] have mem: "(a, aliasDir) \<in> set pathsMap" by simp
    have targets: "\<forall>(k, d) \<in> set pathsMap. d \<noteq> []" using assms(4) by auto
    have st: "startsWith ?new a" unfolding new by (simp add: startsWith_def)
    have "resolveImportPath cwd ?new filePath pathsMap
        = resolveImportPath_spec cwd ?new filePath pathsMap"
      by (rule resolveImportPath_eq_spec [OF assms(3) targets])
    also have "\<dots> = resolve cwd [aliasDir, drop (length a) ?new]"
      unfolding resolveImportPath_spec_def
        resolver_picks_longest [OF assms(3) mem st longest] by simp
    also have "drop (length a) ?new = joinSlash (rs @ [b'])" unfolding new by simp
    also have "resolve cwd [aliasDir, joinSlash (rs @ [b'])]
        = CHR ''/'' # joinSlash (resolvedSegments cwd [aliasDir, joinSlash (rs @ [b'])])"
      by (rule resolve_absolute [OF assms(1,2)])
    also have "resolvedSegments cwd [aliasDir, joinSlash (rs @ [b'])]
        = foldl (normalizeStep False) ?As (splitSlash (joinSlash (rs @ [b'])))"
      by (rule resolvedSegments_two [OF joinSlash_normal_not_Nil [OF ne n]])
    also have "splitSlash (joinSlash (rs @ [b'])) = rs @ [b']"
      by (rule splitSlash_joinSlash [OF ne normalSegment_noSlash [OF n]])
    also have "foldl (normalizeStep False) ?As (rs @ [b']) = ?As @ rs @ [b']"
      by (rule foldl_normalizeStep_normal [OF n])
    finally show ?thesis unfolding T .
  qed
  from first second show ?thesis by blast
qed

theorem alias_rewrite_round_trip_witness:
  "newImportPathOf ''/proj'' (\<lambda>p. p = ''/proj/src/b.ts'') [(''~/'', ''./src/'')]
     \<lparr>write_opt = True, importIgnoreStrings = [], skipAlias = False\<rparr> ''src/a.ts'' ''./b''
     = ''~/b.ts'' \<and>
   extensionTarget (\<lambda>p. p = ''/proj/src/b.ts'')
     (resolveImportPath ''/proj'' ''./b'' ''src/a.ts'' [(''~/'', ''./src/'')]) = ''/proj/src/b.ts'' \<and>
   resolveImportPath ''/proj'' ''~/b.ts'' ''src/a.ts'' [(''~/'', ''./src/'')] = ''/proj/src/b.ts''"
proof -
  let ?pm = "[(''~/'', ''./src/'')]"
  let ?ex = "\<lambda>p. p = ''/proj/src/b.ts''"
  let ?opts = "\<lparr>write_opt = True, importIgnoreStrings = [], skipAlias = False\<rparr>"
  have h1: "''/proj'' \<noteq> []" and h2: "hd ''/proj'' = CHR ''/''" by simp_all
  have h3: "distinct (map fst ?pm)" by simp
  have h4: "\<forall>(k, d) \<in> set ?pm. endsWith k ''/'' \<and> d \<noteq> []" by (simp add: endsWith_def)
  have h5: "isRelativeImport ''./b''" by code_simp
  have h6: "normalSegment (last (splitSlash ''./b''))" by code_simp
  have h7: "\<not> skipAlias ?opts" by simp
  have h8: "\<not> isIgnored (importIgnoreStrings ?opts) ''./b''" by (simp add: isIgnored_def)
  have h9: "find (\<lambda>(k, d). \<not> startsWith
          (relative ''/proj'' d (resolveImportPath ''/proj'' ''./b'' ''src/a.ts'' ?pm)) ''..'') ?pm
        = Some (''~/'', ''./src/'')"
    by code_simp
  have h10: "relative ''/proj'' ''./src/'' (resolveImportPath ''/proj'' ''./b'' ''src/a.ts'' ?pm) \<noteq> []"
    by code_simp
  have h11: "''~/'' \<noteq> ''/''" by simp
  note rt = alias_rewrite_round_trip [OF h1 h2 h3 h4 h5 h6 h7 h8 h9 h10 h11, where exists = ?ex]
  have t: "extensionTarget ?ex (resolveImportPath ''/proj'' ''./b'' ''src/a.ts'' ?pm) = ''/proj/src/b.ts''"
    by code_simp
  have r: "relative ''/proj'' ''./src/'' ''/proj/src/b.ts'' = ''b.ts''" by code_simp
  from rt have new: "newImportPathOf ''/proj'' ?ex ?pm ?opts ''src/a.ts'' ''./b'' = ''~/b.ts''"
    unfolding t r by simp
  have "\<forall>(k, d) \<in> set ?pm. startsWith ''~/b.ts'' k \<longrightarrow> length k \<le> length ''~/''"
    by simp
  with rt have "resolveImportPath ''/proj'' ''~/b.ts'' ''src/a.ts'' ?pm = ''/proj/src/b.ts''"
    unfolding new t by blast
  with new t show ?thesis by simp
qed

text \<open>
  The claim as stated fails where an alias key extends another one without the target
  directories doing the same.  With \<^verbatim>\<open>{"~/": "./src/", "~/c/": "./other/"}\<close> the specifier
  \<^verbatim>\<open>./c/x\<close> of \<^verbatim>\<open>src/a.ts\<close> resolves to \<^verbatim>\<open>/proj/src/c/x\<close>, which lies under \<^verbatim>\<open>./src/\<close>; it is
  rewritten to \<^verbatim>\<open>~/c/x.ts\<close>, which the resolver, taking the longest key first, maps to
  \<^verbatim>\<open>/proj/other/x.ts\<close>.
\<close>

theorem alias_rewrite_round_trip_counterexample:
  "getPathsMap (Some (Some [(''~/*'', [''./src/*'']), (''~/c/*'', [''./other/*''])]))
     = Inr [(''~/'', ''./src/''), (''~/c/'', ''./other/'')] \<and>
   isRelativeImport ''./c/x'' \<and>
   resolveImportPath ''/proj'' ''./c/x'' ''src/a.ts'' [(''~/'', ''./src/''), (''~/c/'', ''./other/'')]
     = ''/proj/src/c/x'' \<and>
   relative ''/proj'' ''./src/'' ''/proj/src/c/x'' = ''c/x'' \<and>
   newImportPathOf ''/proj'' (\<lambda>p. p = ''/proj/src/c/x.ts'')
       [(''~/'', ''./src/''), (''~/c/'', ''./other/'')]
       \<lparr>write_opt = True, importIgnoreStrings = [], skipAlias = False\<rparr> ''src/a.ts'' ''./c/x''
     = ''~/c/x.ts'' \<and>
   resolveImportPath ''/proj'' ''~/c/x.ts'' ''src/a.ts'' [(''~/'', ''./src/''), (''~/c/'', ''./other/'')]
     = ''/proj/other/x.ts''"
  by code_simp

section \<open>Matches of the import pattern\<close>











section \<open>Replacing an import path in its match\<close>






section \<open>The scan of a file as a rewrite of its import paths\<close>




lemma importPathsOf_Nil [simp]: "importPathsOf [] = []"
  by (simp add: importPathsOf_def)


lemma matchImport_Nil [simp]: "matchImport [] = None"
  by (simp add: matchImport_def matchKeyword_def startsWith_def)







lemma rewriteText_Nil [simp]: "rewriteText f [] = []"
  by (simp add: rewriteText_def)




section \<open>The import paths of a rewritten text\<close>







section \<open>Running the rewrite pass twice\<close>








section \<open>Specifiers that the rewrite leaves\<close>

lemma splitExt_dot:
  assumes "n \<noteq> []" and "CHR ''.'' \<notin> set t" and "t \<noteq> []"
  shows "splitExt r (n @ CHR ''.'' # t) = (n, CHR ''.'' # t)"
proof -
  have "takeWhile (\<lambda>c. c \<noteq> CHR ''.'') (rev t @ CHR ''.'' # rev n) = rev t"
    using assms(2) by (auto simp: takeWhile_tail)
  then have a: "takeWhile (\<lambda>c. c \<noteq> CHR ''.'') (rev (n @ CHR ''.'' # t)) = rev t" by simp
  have l: "3 \<le> length (n @ CHR ''.'' # t)"
    using assms(1,3) by (cases n; cases t) simp_all
  then have "n @ CHR ''.'' # t \<noteq> ''..''" by (auto simp del: length_append)
  then show ?thesis
    unfolding splitExt_def a using assms(1) by (simp add: Let_def)
qed

lemma splitExt_name_not_Nil: "b \<noteq> [] \<Longrightarrow> fst (splitExt r b) \<noteq> []"
  by (auto simp: splitExt_def Let_def)

text \<open>
  The target that the extension resolver finds for a resolved path is its own target:
  a second look at the disk finds the same file.
\<close>

lemma extensionTarget_idem:
  assumes xs: "\<forall>s \<in> set xs. normalSegment s" and b: "normalSegment b"
  shows "extensionTarget exists (extensionTarget exists (CHR ''/'' # joinSlash (xs @ [b])))
    = extensionTarget exists (CHR ''/'' # joinSlash (xs @ [b]))"
proof -
  let ?R = "CHR ''/'' # joinSlash (xs @ [b])"
  let ?n = "fst (splitExt False b)"
  let ?cand = "\<lambda>n e. CHR ''/'' # joinSlash (xs @ [n @ e])"
  have bne: "b \<noteq> []" using b by (simp add: normalSegment_def)
  have n: "?n \<noteq> []" by (rule splitExt_name_not_Nil [OF bne])
  have extR: "ext (parse ?R) = snd (splitExt False b)" "base (parse ?R) = b"
    by (simp_all add: parse_normalized [OF xs b])
  have fe: "formatExt ''.ts'' = ''.ts''" "formatExt ''.tsx'' = ''.tsx''" "formatExt ''.d.ts'' = ''.d.ts''"
    by (simp_all add: formatExt_def)
  have look: "''.ts'' \<in> set tsExtensionLookups" "''.tsx'' \<in> set tsExtensionLookups"
    by (simp_all add: tsExtensionLookups_def)
  \<comment> \<open>the resolver on a normalised path whose last segment is \<open>c\<close>\<close>
  have get: "getNewExtensionPathParts exists (parse (CHR ''/'' # joinSlash (xs @ [c]))) =
      (if snd (splitExt False c) \<notin> set tsExtensionLookups then Some (snd (splitExt False c), c)
       else if exists (?cand (fst (splitExt False c)) ''.ts'') then Some (''.ts'', [])
       else if exists (?cand (fst (splitExt False c)) ''.tsx'') then Some (''.tsx'', [])
       else if exists (?cand (fst (splitExt False c)) ''.d.ts'') then Some (''.d.ts'', [])
       else None)"
    if c: "normalSegment c" for c
    using format_normalized [OF xs c, where bs = "[]"] fe
    by (simp add: getNewExtensionPathParts_def probeExtensions_find ALLOWED_EXTENSIONS_def
        parse_normalized [OF xs c])
  have tgt: "extensionTarget exists (CHR ''/'' # joinSlash (xs @ [c])) =
      (if snd (splitExt False c) \<notin> set tsExtensionLookups then CHR ''/'' # joinSlash (xs @ [c])
       else if exists (?cand (fst (splitExt False c)) ''.ts'') then ?cand (fst (splitExt False c)) ''.ts''
       else if exists (?cand (fst (splitExt False c)) ''.tsx'') then ?cand (fst (splitExt False c)) ''.tsx''
       else if exists (?cand (fst (splitExt False c)) ''.d.ts'') then ?cand (fst (splitExt False c)) ''.d.ts''
       else CHR ''/'' # joinSlash (xs @ [c]))"
    if c: "normalSegment c" for c
  proof -
    have "c \<noteq> []" using c by (simp add: normalSegment_def)
    then show ?thesis
      unfolding extensionTarget_def get [OF c]
      using format_normalized [OF xs c, where bs = "[]"]
        format_normalized [OF xs c, where bs = c and e = "snd (splitExt False c)"] fe
      by simp
  qed
  have al: "''.ts'' \<in> set ALLOWED_EXTENSIONS" "''.tsx'' \<in> set ALLOWED_EXTENSIONS"
    "''.d.ts'' \<in> set ALLOWED_EXTENSIONS"
    by (simp_all add: ALLOWED_EXTENSIONS_def)
  have nts: "normalSegment (?n @ ''.ts'')" "normalSegment (?n @ ''.tsx'')" "normalSegment (?n @ ''.d.ts'')"
    using normalSegment_with_extension [OF b al(1)] normalSegment_with_extension [OF b al(2)]
      normalSegment_with_extension [OF b al(3)] fe by simp_all
  have s1: "splitExt False (?n @ ''.ts'') = (?n, ''.ts'')"
    using splitExt_dot [OF n, of "''ts''" False] by simp
  have s2: "splitExt False (?n @ ''.tsx'') = (?n, ''.tsx'')"
    using splitExt_dot [OF n, of "''tsx''" False] by simp
  have s3: "splitExt False (?n @ ''.d.ts'') = (?n @ ''.d'', ''.ts'')"
    using splitExt_dot [of "?n @ ''.d''" "''ts''" False] by simp
  show ?thesis
  proof (cases "snd (splitExt False b) \<notin> set tsExtensionLookups")
    case True
    then show ?thesis by (simp add: tgt [OF b])
  next
    case look_b: False
    show ?thesis
    proof (cases "exists (?cand ?n ''.ts'')")
      case True
      with look_b have "extensionTarget exists ?R = ?cand ?n ''.ts''" by (simp add: tgt [OF b])
      moreover have "extensionTarget exists (?cand ?n ''.ts'') = ?cand ?n ''.ts''"
        using True look by (simp add: tgt [OF nts(1)] s1)
      ultimately show ?thesis by simp
    next
      case no_ts: False
      show ?thesis
      proof (cases "exists (?cand ?n ''.tsx'')")
        case True
        with look_b no_ts have "extensionTarget exists ?R = ?cand ?n ''.tsx''"
          by (simp add: tgt [OF b])
        moreover have "extensionTarget exists (?cand ?n ''.tsx'') = ?cand ?n ''.tsx''"
          using True no_ts look by (simp add: tgt [OF nts(2)] s2)
        ultimately show ?thesis by simp
      next
        case no_tsx: False
        show ?thesis
        proof (cases "exists (?cand ?n ''.d.ts'')")
          case True
          with look_b no_ts no_tsx have "extensionTarget exists ?R = ?cand ?n ''.d.ts''"
            by (simp add: tgt [OF b])
          moreover have "extensionTarget exists (?cand ?n ''.d.ts'') = ?cand ?n ''.d.ts''"
            using True look by (simp add: tgt [OF nts(3)] s3)
          ultimately show ?thesis by simp
        next
          case False
          with look_b no_ts no_tsx have "extensionTarget exists ?R = ?R" by (simp add: tgt [OF b])
          then show ?thesis by simp
        qed
      qed
    qed
  qed
qed

text \<open>The resolver on an alias followed by a normalised relative path.\<close>

lemma alias_form_resolves:
  fixes pathsMap :: PathsMap
  assumes cwd: "cwd \<noteq> []" "hd cwd = CHR ''/''"
    and keys: "distinct (map fst pathsMap)" and targets: "\<forall>(k, d) \<in> set pathsMap. d \<noteq> []"
    and mem: "(a, aliasDir) \<in> set pathsMap"
    and n: "\<forall>s \<in> set (rs @ [b']). normalSegment s"
    and longest: "\<forall>(k, d) \<in> set pathsMap.
      startsWith (a @ joinSlash (rs @ [b'])) k \<longrightarrow> length k \<le> length a"
  shows "resolveImportPath cwd (a @ joinSlash (rs @ [b'])) filePath pathsMap
    = CHR ''/'' # joinSlash (resolvedSegments cwd [aliasDir] @ rs @ [b'])"
proof -
  let ?new = "a @ joinSlash (rs @ [b'])"
  let ?As = "resolvedSegments cwd [aliasDir]"
  have ne: "rs @ [b'] \<noteq> []" by simp
  have st: "startsWith ?new a" by (simp add: startsWith_def)
  have "resolveImportPath cwd ?new filePath pathsMap
      = resolveImportPath_spec cwd ?new filePath pathsMap"
    by (rule resolveImportPath_eq_spec [OF keys targets])
  also have "\<dots> = resolve cwd [aliasDir, drop (length a) ?new]"
    unfolding resolveImportPath_spec_def
      resolver_picks_longest [OF keys mem st longest] by simp
  also have "drop (length a) ?new = joinSlash (rs @ [b'])" by simp
  also have "resolve cwd [aliasDir, joinSlash (rs @ [b'])]
      = CHR ''/'' # joinSlash (resolvedSegments cwd [aliasDir, joinSlash (rs @ [b'])])"
    by (rule resolve_absolute [OF cwd])
  also have "resolvedSegments cwd [aliasDir, joinSlash (rs @ [b'])]
      = foldl (normalizeStep False) ?As (splitSlash (joinSlash (rs @ [b'])))"
    by (rule resolvedSegments_two [OF joinSlash_normal_not_Nil [OF ne n]])
  also have "splitSlash (joinSlash (rs @ [b'])) = rs @ [b']"
    by (rule splitSlash_joinSlash [OF ne normalSegment_noSlash [OF n]])
  also have "foldl (normalizeStep False) ?As (rs @ [b']) = ?As @ rs @ [b']"
    by (rule foldl_normalizeStep_normal [OF n])
  finally show ?thesis .
qed

text \<open>
  A specifier that resolves to a file which is its own target, and on which the alias
  step does not run or finds no alias, is left by the rewrite.
\<close>

lemma rewrite_fixed_on_target:
  assumes ys: "\<forall>s \<in> set ys. normalSegment s" and b': "normalSegment b'"
    and res: "resolveImportPath cwd s filePath pathsMap = CHR ''/'' # joinSlash (ys @ [b'])"
    and idem: "extensionTarget exists (CHR ''/'' # joinSlash (ys @ [b']))
      = CHR ''/'' # joinSlash (ys @ [b'])"
    and form: "s = b' \<or> (\<exists>X. s = X @ CHR ''/'' # b')" and hd: "hd s \<noteq> CHR ''/''"
    and noalias: "\<not> isRelativeImport s \<or> skipAlias opts \<or>
      getAliasPathParts cwd (parse (CHR ''/'' # joinSlash (ys @ [b']))) pathsMap = None"
  shows "newImportPathOf cwd exists pathsMap opts filePath s = s"
proof (cases "newImportPartsOf cwd exists pathsMap opts filePath s")
  case None
  then show ?thesis by (simp add: newImportPathOf_def)
next
  case (Some r)
  let ?T = "CHR ''/'' # joinSlash (ys @ [b'])"
  from b' have bn: "b' \<noteq> []" "CHR ''/'' \<notin> set b'" "b' \<noteq> ''..''"
    by (simp_all add: normalSegment_def)
  note pl = parse_last [OF bn form]
  obtain P1 e1 where es: "extensionStep exists s (parse ?T) (parse s) = (P1, e1)"
    by (cases "extensionStep exists s (parse ?T) (parse s)")
  from extensionStep_last_component [OF ys b' refl, of "parse s" exists s] pl
  obtain c where c: "normalSegment c"
    and T: "extensionTarget exists ?T = CHR ''/'' # joinSlash (ys @ [c])"
    and P1: "(if base P1 \<noteq> [] then base P1 else name P1 @ formatExt (ext P1)) = c"
      "root P1 = root (parse s)" "dir P1 = dir (parse s)"
    unfolding es by (auto simp: Let_def)
  from T idem have "joinSlash (ys @ [c]) = joinSlash (ys @ [b'])" by simp
  then have cb: "c = b'" by (simp add: joinSlash_snoc split: if_splits)
  have "fst (aliasStep cwd pathsMap (skipAlias opts) s (parse ?T) P1) = P1"
    using noalias by (auto simp: aliasStep_def)
  then obtain e2 where al: "aliasStep cwd pathsMap (skipAlias opts) s (parse ?T) P1 = (P1, e2)"
    by (cases "aliasStep cwd pathsMap (skipAlias opts) s (parse ?T) P1") simp
  from Some have "newImportPartsOf cwd exists pathsMap opts filePath s = Some (P1, e1 @ e2)"
    using es al by (simp add: newImportPartsOf_def Let_def res split: if_splits)
  then have "newImportPathOf cwd exists pathsMap opts filePath s = format P1"
    by (simp add: newImportPathOf_def)
  also have "format P1 = format (parse s)"
    using P1 cb pl bn(1) by (simp add: format_def Let_def)
  also have "\<dots> = s" by (rule format_parse_last [OF bn(1,2) form hd])
  finally show ?thesis .
qed

text \<open>
  The alias form that the rewrite puts for a relative specifier is left by the rewrite,
  where no longer alias key is a prefix of it and it is not itself a relative specifier.
\<close>

lemma alias_form_stable:
  assumes cwd: "cwd \<noteq> []" "hd cwd = CHR ''/''"
    and table: "distinct (map fst pathsMap)" "\<forall>(k, d) \<in> set pathsMap. endsWith k ''/'' \<and> d \<noteq> []"
    and rel: "isRelativeImport importPath"
    and last: "normalSegment (last (splitSlash importPath))"
    and opts: "\<not> skipAlias opts" "\<not> isIgnored (importIgnoreStrings opts) importPath"
    and cover: "find (\<lambda>(k, d). \<not> startsWith
          (relative cwd d (resolveImportPath cwd importPath filePath pathsMap)) ''..'') pathsMap
        = Some (a, aliasDir)"
    and under: "relative cwd aliasDir (resolveImportPath cwd importPath filePath pathsMap) \<noteq> []"
    and a: "hd a \<noteq> CHR ''/''"
    and longest: "\<forall>(k, d) \<in> set pathsMap.
      startsWith (newImportPathOf cwd exists pathsMap opts filePath importPath) k
        \<longrightarrow> length k \<le> length a"
    and notrel: "\<not> isRelativeImport (newImportPathOf cwd exists pathsMap opts filePath importPath)"
  shows "newImportPathOf cwd exists pathsMap opts filePath
      (newImportPathOf cwd exists pathsMap opts filePath importPath)
    = newImportPathOf cwd exists pathsMap opts filePath importPath"
proof -
  let ?R = "resolveImportPath cwd importPath filePath pathsMap"
  let ?As = "resolvedSegments cwd [aliasDir]"
  let ?new = "newImportPathOf cwd exists pathsMap opts filePath importPath"
  from find_SomeD [OF cover] have mem: "(a, aliasDir) \<in> set pathsMap" by simp
  with table(2) have "endsWith a ''/''" by auto
  then obtain a0 where a0: "a = a0 @ ''/''" by (auto simp: endsWith_iff)
  with a have a0ne: "a0 \<noteq> []" and ane: "a \<noteq> ''/''" by auto
  from alias_rewrite_core [OF cwd table rel last opts cover under ane, of exists]
  obtain rs b' where rs: "\<forall>s \<in> set rs. normalSegment s" and b': "normalSegment b'"
    and T: "extensionTarget exists ?R = CHR ''/'' # joinSlash (?As @ rs @ [b'])"
    and new: "?new = a @ joinSlash (rs @ [b'])"
    by blast
  have keys: "\<forall>(k, d) \<in> set pathsMap. endsWith k ''/''" using table(2) by auto
  have targets: "\<forall>(k, d) \<in> set pathsMap. d \<noteq> []" using table(2) by auto
  from resolveImportPath_normalized [OF cwd keys refl last, of filePath]
  obtain xs where xs: "\<forall>s \<in> set xs. normalSegment s"
    and R: "?R = CHR ''/'' # joinSlash (xs @ [last (splitSlash importPath)])"
    by blast
  have idem: "extensionTarget exists (CHR ''/'' # joinSlash ((?As @ rs) @ [b']))
      = CHR ''/'' # joinSlash ((?As @ rs) @ [b'])"
    using extensionTarget_idem [OF xs last, of exists] unfolding R [symmetric] T by simp
  have n: "\<forall>s \<in> set (rs @ [b']). normalSegment s" using rs b' by simp
  have ys: "\<forall>s \<in> set (?As @ rs). normalSegment s"
    using rs resolvedSegments_normal [of cwd "[aliasDir]"] by auto
  have res: "resolveImportPath cwd ?new filePath pathsMap = CHR ''/'' # joinSlash ((?As @ rs) @ [b'])"
    using alias_form_resolves [OF cwd table(1) targets mem n longest [unfolded new], of filePath]
    unfolding new by simp
  have form: "?new = b' \<or> (\<exists>X. ?new = X @ CHR ''/'' # b')"
    unfolding new by (auto simp: joinSlash_snoc a0)
  have hd: "hd ?new \<noteq> CHR ''/''"
    unfolding new using a a0 a0ne by (cases a0) auto
  show ?thesis
    by (rule rewrite_fixed_on_target [OF ys b' res idem form hd]) (use notrel in simp)
qed

lemma stableRewrite_alias_form:
  assumes "cwd \<noteq> []" and "hd cwd = CHR ''/''"
    and "distinct (map fst pathsMap)" and "\<forall>(k, d) \<in> set pathsMap. endsWith k ''/'' \<and> d \<noteq> []"
    and "isRelativeImport importPath"
    and "normalSegment (last (splitSlash importPath))"
    and "\<not> skipAlias opts" and "\<not> isIgnored (importIgnoreStrings opts) importPath"
    and "find (\<lambda>(k, d). \<not> startsWith
          (relative cwd d (resolveImportPath cwd importPath filePath pathsMap)) ''..'') pathsMap
        = Some (a, aliasDir)"
    and "relative cwd aliasDir (resolveImportPath cwd importPath filePath pathsMap) \<noteq> []"
    and "hd a \<noteq> CHR ''/''"
    and "\<forall>(k, d) \<in> set pathsMap.
      startsWith (newImportPathOf cwd exists pathsMap opts filePath importPath) k
        \<longrightarrow> length k \<le> length a"
    and "\<not> isRelativeImport (newImportPathOf cwd exists pathsMap opts filePath importPath)"
    and "plainSpecifier (newImportPathOf cwd exists pathsMap opts filePath importPath)"
  shows "stableRewrite cwd exists pathsMap opts filePath importPath"
  unfolding stableRewrite_def Let_def
  using alias_form_stable [OF assms(1-13)] assms(14) by blast

text \<open>
  The resolved path of a specifier depends on the last segment of the specifier only in
  its own last segment.
\<close>

lemma resolvedSegments_last_segment:
  assumes Y: "Y = [] \<or> (\<exists>Y0. Y = Y0 @ ''/'')"
  shows "\<exists>zs. \<forall>c. normalSegment c \<longrightarrow> resolvedSegments cwd (args @ [Y @ c]) = zs @ [c]"
proof -
  let ?ps = "rev args @ [cwd]"
  define Q where "Q = (if Y \<noteq> [] \<and> hd Y = CHR ''/'' then [] else fst (resolve_loop ?ps []))"
  define W where "W = Q @ Y"
  have Q: "Q = [] \<or> (\<exists>Q0. Q = Q0 @ ''/'')"
    using resolve_loop_ends_with_slash [of ?ps] by (auto simp: Q_def)
  have W: "W = [] \<or> (\<exists>W0. W = W0 @ ''/'')"
  proof (cases "Y = []")
    case True
    with Q show ?thesis by (simp add: W_def)
  next
    case False
    with Y obtain Y0 where "Y = Y0 @ ''/''" by blast
    then have "W = (Q @ Y0) @ ''/''" by (simp add: W_def)
    then show ?thesis by blast
  qed
  define pre where "pre = butlast (splitSlash W)"
  have "resolvedSegments cwd (args @ [Y @ c]) = foldl (normalizeStep False) [] pre @ [c]"
    if c: "normalSegment c" for c
  proof -
    from c have cn: "c \<noteq> []" "CHR ''/'' \<notin> set c" by (simp_all add: normalSegment_def)
    then have hc: "hd c \<noteq> CHR ''/''" by (cases c) auto
    have yne: "Y @ c \<noteq> []" using cn by simp
    have hy: "hd (Y @ c) = CHR ''/'' \<longleftrightarrow> Y \<noteq> [] \<and> hd Y = CHR ''/''"
      using hc by (cases Y) auto
    have "fst (resolve_loop ((Y @ c) # ?ps) []) = Q @ (Y @ c) @ ''/''"
    proof (cases "Y \<noteq> [] \<and> hd Y = CHR ''/''")
      case True
      have Qv: "Q = []" using True unfolding Q_def by auto
      from True hy cn(1) show ?thesis unfolding Qv by simp
    next
      case False
      have Qv: "Q = fst (resolve_loop ?ps [])" using False unfolding Q_def by auto
      from False hy have "hd (Y @ c) \<noteq> CHR ''/''" by blast
      with cn(1) have e: "resolve_loop ((Y @ c) # ?ps) [] = resolve_loop ?ps ((Y @ c) @ ''/'')"
        by simp
      have "fst (resolve_loop ?ps ((Y @ c) @ ''/'')) = fst (resolve_loop ?ps []) @ (Y @ c) @ ''/''"
        using resolve_loop_acc [of ?ps "(Y @ c) @ ''/''"] by simp
      then show ?thesis unfolding e Qv .
    qed
    then have f: "fst (resolve_loop (rev (args @ [Y @ c]) @ [cwd]) []) = W @ c @ ''/''"
      by (simp add: W_def)
    have cs: "splitSlash (c @ ''/'') = [c, []]"
      using splitSlash_append_slash [of c "[]"] cn by (simp add: splitSlash_noSlash)
    have "splitSlash (W @ c @ ''/'') = pre @ [c, []]"
    proof (cases "W = []")
      case True
      then show ?thesis using cs by (simp add: pre_def)
    next
      case False
      with W obtain W0 where W0: "W = W0 @ ''/''" by blast
      have "splitSlash W = splitSlash W0 @ [[]]"
        unfolding W0 using splitSlash_append_slash [of W0 "[]"] by simp
      then have "pre = splitSlash W0" by (simp add: pre_def)
      moreover have "splitSlash (W @ c @ ''/'') = splitSlash W0 @ splitSlash (c @ ''/'')"
        unfolding W0 using splitSlash_append_slash [of W0 "c @ ''/''"] by simp
      ultimately show ?thesis using cs by simp
    qed
    then show ?thesis
      unfolding resolvedSegments_def f by (simp add: normalizeStep_normal [OF c])
  qed
  then show ?thesis by blast
qed

lemma startsWith_key_last_segment:
  assumes k: "endsWith k ''/''" and c: "CHR ''/'' \<notin> set c"
  shows "startsWith (X @ CHR ''/'' # c) k \<longleftrightarrow> startsWith (X @ ''/'') k"
    and "startsWith (X @ ''/'') k \<Longrightarrow>
      drop (length k) (X @ CHR ''/'' # c) = drop (length k) (X @ ''/'') @ c \<and>
      (drop (length k) (X @ ''/'') = [] \<or> (\<exists>Y0. drop (length k) (X @ ''/'') = Y0 @ ''/''))"
proof -
  from k obtain k0 where k0: "k = k0 @ ''/''" by (auto simp: endsWith_iff)
  show "startsWith (X @ CHR ''/'' # c) k \<longleftrightarrow> startsWith (X @ ''/'') k"
  proof
    assume "startsWith (X @ CHR ''/'' # c) k"
    then obtain t where "(X @ ''/'') @ c = k @ t" by (auto simp: startsWith_iff)
    then obtain us where us: "X @ ''/'' = k @ us \<and> us @ c = t \<or> (X @ ''/'') @ us = k \<and> c = us @ t"
      unfolding append_eq_append_conv2 by blast
    show "startsWith (X @ ''/'') k"
    proof (cases "us = []")
      case True
      with us have "X @ ''/'' = k @ []" by auto
      then show ?thesis unfolding startsWith_iff by blast
    next
      case False
      show ?thesis
      proof (rule disjE [OF us])
        assume "X @ ''/'' = k @ us \<and> us @ c = t"
        then show ?thesis unfolding startsWith_iff by blast
      next
        assume a: "(X @ ''/'') @ us = k \<and> c = us @ t"
        with k0 False have "last us = CHR ''/''" by (metis last_appendR last_snoc)
        with False have "CHR ''/'' \<in> set us" by (metis last_in_set)
        with a c show ?thesis by auto
      qed
    qed
  next
    assume "startsWith (X @ ''/'') k"
    then obtain us where "X @ ''/'' = k @ us" by (auto simp: startsWith_iff)
    then have "X @ CHR ''/'' # c = k @ (us @ c)" by simp
    then show "startsWith (X @ CHR ''/'' # c) k" unfolding startsWith_iff by blast
  qed
  show "drop (length k) (X @ CHR ''/'' # c) = drop (length k) (X @ ''/'') @ c \<and>
      (drop (length k) (X @ ''/'') = [] \<or> (\<exists>Y0. drop (length k) (X @ ''/'') = Y0 @ ''/''))"
    if "startsWith (X @ ''/'') k"
  proof -
    from that obtain us where us: "X @ ''/'' = k @ us" by (auto simp: startsWith_iff)
    then have x: "X @ CHR ''/'' # c = k @ (us @ c)" by simp
    have d: "drop (length k) (X @ ''/'') = us" unfolding us by simp
    have "us = [] \<or> (\<exists>Y0. us = Y0 @ ''/'')"
    proof (cases "us = []")
      case True
      then show ?thesis by simp
    next
      case False
      with us have "last us = CHR ''/''" by (metis last_appendR last_snoc)
      with False have "us = butlast us @ ''/''" by (metis append_butlast_last_id)
      then show ?thesis by blast
    qed
    then show ?thesis unfolding d x by simp
  qed
qed

lemma resolveImportPath_loop_last_segment:
  assumes "\<forall>k \<in> set ks. endsWith k ''/''"
  shows "(\<forall>c. CHR ''/'' \<notin> set c \<longrightarrow> resolveImportPath_loop cwd (X @ CHR ''/'' # c) pathsMap ks = None) \<or>
    (\<exists>d Y. (Y = [] \<or> (\<exists>Y0. Y = Y0 @ ''/'')) \<and>
       (\<forall>c. CHR ''/'' \<notin> set c \<longrightarrow>
          resolveImportPath_loop cwd (X @ CHR ''/'' # c) pathsMap ks = Some (resolve cwd [d, Y @ c])))"
  using assms
proof (induction ks)
  case Nil
  show ?case by simp
next
  case (Cons k ks)
  from Cons.prems have k: "endsWith k ''/''" and ks: "\<forall>k \<in> set ks. endsWith k ''/''" by simp_all
  note IH = Cons.IH [OF ks]
  note sw = startsWith_key_last_segment [OF k]
  show ?case
  proof (cases "startsWith (X @ ''/'') k \<and> (\<exists>d. map_of pathsMap k = Some d \<and> d \<noteq> [])")
    case True
    then obtain d where sk: "startsWith (X @ ''/'') k" and d: "map_of pathsMap k = Some d" "d \<noteq> []"
      by blast
    let ?Y = "drop (length k) (X @ ''/'')"
    have "resolveImportPath_loop cwd (X @ CHR ''/'' # c) pathsMap (k # ks)
        = Some (resolve cwd [d, ?Y @ c])" if c: "CHR ''/'' \<notin> set c" for c
      using sw(1) [OF c, of X] sw(2) [OF c sk] sk d by simp
    moreover have "?Y = [] \<or> (\<exists>Y0. ?Y = Y0 @ ''/'')"
      using sw(2) [of "[]" X] sk by simp
    ultimately show ?thesis by blast
  next
    case False
    have "resolveImportPath_loop cwd (X @ CHR ''/'' # c) pathsMap (k # ks)
        = resolveImportPath_loop cwd (X @ CHR ''/'' # c) pathsMap ks" if c: "CHR ''/'' \<notin> set c" for c
      using sw(1) [OF c, of X] False by (auto split: option.splits)
    with IH show ?thesis by simp
  qed
qed

lemma resolveImportPath_last_segment:
  assumes cwd: "cwd \<noteq> []" "hd cwd = CHR ''/''"
    and keys: "\<forall>(k, d) \<in> set pathsMap. endsWith k ''/''"
  shows "\<exists>zs. (\<forall>s \<in> set zs. normalSegment s) \<and>
    (\<forall>c. normalSegment c \<longrightarrow>
       resolveImportPath cwd (X @ CHR ''/'' # c) filePath pathsMap = CHR ''/'' # joinSlash (zs @ [c]))"
proof -
  let ?ks = "sort_key (\<lambda>a. - int (length a)) (map fst pathsMap)"
  have "\<forall>k \<in> set ?ks. endsWith k ''/''" using keys by auto
  from resolveImportPath_loop_last_segment [OF this, of cwd X pathsMap]
  have "\<exists>args Y. (Y = [] \<or> (\<exists>Y0. Y = Y0 @ ''/'')) \<and>
      (\<forall>c. CHR ''/'' \<notin> set c \<longrightarrow>
         resolveImportPath cwd (X @ CHR ''/'' # c) filePath pathsMap = resolve cwd (args @ [Y @ c]))"
  proof
    assume none: "\<forall>c. CHR ''/'' \<notin> set c \<longrightarrow>
      resolveImportPath_loop cwd (X @ CHR ''/'' # c) pathsMap ?ks = None"
    have "\<forall>c. CHR ''/'' \<notin> set c \<longrightarrow>
        resolveImportPath cwd (X @ CHR ''/'' # c) filePath pathsMap
          = resolve cwd ([dirname filePath] @ [(X @ ''/'') @ c])"
      using none by (simp add: resolveImportPath_def)
    moreover have "X @ ''/'' = [] \<or> (\<exists>Y0. X @ ''/'' = Y0 @ ''/'')" by blast
    ultimately show ?thesis by blast
  next
    assume "\<exists>d Y. (Y = [] \<or> (\<exists>Y0. Y = Y0 @ ''/'')) \<and>
      (\<forall>c. CHR ''/'' \<notin> set c \<longrightarrow>
         resolveImportPath_loop cwd (X @ CHR ''/'' # c) pathsMap ?ks = Some (resolve cwd [d, Y @ c]))"
    then obtain d Y where Y: "Y = [] \<or> (\<exists>Y0. Y = Y0 @ ''/'')"
      and some: "\<forall>c. CHR ''/'' \<notin> set c \<longrightarrow>
         resolveImportPath_loop cwd (X @ CHR ''/'' # c) pathsMap ?ks = Some (resolve cwd [d, Y @ c])"
      by blast
    have "\<forall>c. CHR ''/'' \<notin> set c \<longrightarrow>
        resolveImportPath cwd (X @ CHR ''/'' # c) filePath pathsMap = resolve cwd ([d] @ [Y @ c])"
      using some by (simp add: resolveImportPath_def)
    with Y show ?thesis by blast
  qed
  then obtain args Y where Y: "Y = [] \<or> (\<exists>Y0. Y = Y0 @ ''/'')"
    and r: "\<forall>c. CHR ''/'' \<notin> set c \<longrightarrow>
       resolveImportPath cwd (X @ CHR ''/'' # c) filePath pathsMap = resolve cwd (args @ [Y @ c])"
    by blast
  from resolvedSegments_last_segment [OF Y, of cwd args]
  obtain zs where zs: "\<forall>c. normalSegment c \<longrightarrow> resolvedSegments cwd (args @ [Y @ c]) = zs @ [c]"
    by blast
  have "normalSegment ''a''" by (simp add: normalSegment_def)
  with zs have "resolvedSegments cwd (args @ [Y @ ''a'']) = zs @ [''a'']" by blast
  with resolvedSegments_normal [of cwd "args @ [Y @ ''a'']"]
  have n: "\<forall>s \<in> set zs. normalSegment s" by simp
  have "resolveImportPath cwd (X @ CHR ''/'' # c) filePath pathsMap = CHR ''/'' # joinSlash (zs @ [c])"
    if c: "normalSegment c" for c
  proof -
    from c have "CHR ''/'' \<notin> set c" by (simp add: normalSegment_def)
    with r have "resolveImportPath cwd (X @ CHR ''/'' # c) filePath pathsMap
        = resolve cwd (args @ [Y @ c])" by blast
    also have "\<dots> = CHR ''/'' # joinSlash (resolvedSegments cwd (args @ [Y @ c]))"
      by (rule resolve_absolute [OF cwd])
    finally show ?thesis using zs c by simp
  qed
  with n show ?thesis by blast
qed

lemma specifier_with_separator:
  assumes "last (splitSlash p) = b" and "CHR ''/'' \<in> set p"
  shows "\<exists>X. p = X @ CHR ''/'' # b"
proof -
  let ?ys = "butlast (splitSlash p)"
  have "splitSlash p = ?ys @ [b]"
    using assms(1) append_butlast_last_id [of "splitSlash p"] by simp
  then have "joinSlash (?ys @ [b]) = p"
    using joinSlash_splitSlash [of p] by simp
  then have p: "p = (if ?ys = [] then b else joinSlash ?ys @ CHR ''/'' # b)"
    by (simp only: joinSlash_snoc)
  have "CHR ''/'' \<notin> set b"
    using splitSlash_segments_noSlash [of b p] assms(1) by (metis last_in_set splitSlash_not_Nil)
  with p assms(2) have "?ys \<noteq> []" by auto
  with p show ?thesis by metis
qed

lemma processed_has_separator:
  assumes "\<forall>(k, d) \<in> set pathsMap. endsWith k ''/''"
    and "isRelativeImport p \<or> isAliasImport pathsMap p"
  shows "CHR ''/'' \<in> set p"
  using assms(2)
proof
  assume "isRelativeImport p"
  then obtain t where "p = ''./'' @ t \<or> p = ''../'' @ t"
    by (auto simp: isRelativeImport_def startsWith_iff)
  then show ?thesis by auto
next
  assume "isAliasImport pathsMap p"
  then obtain k d t where kd: "(k, d) \<in> set pathsMap" and p: "p = k @ t"
    by (auto simp: isAliasImport_def list_ex_iff startsWith_iff)
  from assms(1) kd obtain k' where "k = k' @ ''/''" by (auto simp: endsWith_iff)
  with p show ?thesis by simp
qed

lemma isRelativeImport_last_segment:
  assumes "X \<noteq> []"
  shows "isRelativeImport (X @ CHR ''/'' # c) = isRelativeImport (X @ CHR ''/'' # c')"
proof -
  from assms obtain x X1 where X: "X = x # X1" by (cases X) auto
  show ?thesis
  proof (cases X1)
    case Nil
    then show ?thesis by (simp add: X isRelativeImport_def startsWith_def)
  next
    case (Cons y X2)
    then show ?thesis by (cases X2) (simp_all add: X isRelativeImport_def startsWith_def)
  qed
qed

text \<open>
  Where the alias step does not run, or finds no alias for the resolved path and for the
  target, the rewrite changes the last segment of the specifier only, and leaves what
  it has written.
\<close>

lemma extension_rewrite_stable:
  assumes cwd: "cwd \<noteq> []" "hd cwd = CHR ''/''"
    and keys: "\<forall>(k, d) \<in> set pathsMap. endsWith k ''/''"
    and last: "normalSegment (last (splitSlash importPath))"
    and hd: "hd importPath \<noteq> CHR ''/''"
    and noalias: "\<not> isRelativeImport importPath \<or> skipAlias opts \<or>
      getAliasPathParts cwd (parse (resolveImportPath cwd importPath filePath pathsMap)) pathsMap = None \<and>
      getAliasPathParts cwd
        (parse (extensionTarget exists (resolveImportPath cwd importPath filePath pathsMap))) pathsMap = None"
  shows "newImportPathOf cwd exists pathsMap opts filePath
      (newImportPathOf cwd exists pathsMap opts filePath importPath)
    = newImportPathOf cwd exists pathsMap opts filePath importPath"
proof (cases "newImportPartsOf cwd exists pathsMap opts filePath importPath")
  case None
  then show ?thesis by (simp add: newImportPathOf_def)
next
  case (Some r)
  let ?R = "resolveImportPath cwd importPath filePath pathsMap"
  define b where "b = last (splitSlash importPath)"
  have b: "normalSegment b" and lb: "last (splitSlash importPath) = b"
    using last by (simp_all add: b_def)
  from b have bn: "b \<noteq> []" "CHR ''/'' \<notin> set b" by (simp_all add: normalSegment_def)
  from Some have proc: "isRelativeImport importPath \<or> isAliasImport pathsMap importPath"
    by (auto simp: newImportPartsOf_def split: if_splits)
  from specifier_with_separator [OF lb processed_has_separator [OF keys proc]]
  obtain X where p: "importPath = X @ CHR ''/'' # b" by blast
  with hd have X: "X \<noteq> []" "hd X \<noteq> CHR ''/''" by (cases X; simp)+
  from resolveImportPath_last_segment [OF cwd keys, of X filePath]
  obtain zs where zs: "\<forall>s \<in> set zs. normalSegment s"
    and rz: "\<And>c. normalSegment c \<Longrightarrow>
      resolveImportPath cwd (X @ CHR ''/'' # c) filePath pathsMap = CHR ''/'' # joinSlash (zs @ [c])"
    by blast
  have R: "?R = CHR ''/'' # joinSlash (zs @ [b])" unfolding p by (rule rz [OF b])
  have pP: "parse importPath = \<lparr>root = [], dir = X, base = b, ext = snd (splitExt False b),
      name = fst (splitExt False b)\<rparr>"
    unfolding p using parse_dir_base [OF bn X(1)] X(2) by simp
  obtain P1 e1 where es: "extensionStep exists importPath (parse ?R) (parse importPath) = (P1, e1)"
    by (cases "extensionStep exists importPath (parse ?R) (parse importPath)")
  from extensionStep_last_component [OF zs b R, of "parse importPath" exists importPath] pP
  obtain b' where b': "normalSegment b'"
    and T: "extensionTarget exists ?R = CHR ''/'' # joinSlash (zs @ [b'])"
    and P1: "(if base P1 \<noteq> [] then base P1 else name P1 @ formatExt (ext P1)) = b'"
      "root P1 = []" "dir P1 = X"
    unfolding es by (auto simp: Let_def)
  have "fst (aliasStep cwd pathsMap (skipAlias opts) importPath (parse ?R) P1) = P1"
    using noalias by (auto simp: aliasStep_def)
  then obtain e2 where al: "aliasStep cwd pathsMap (skipAlias opts) importPath (parse ?R) P1 = (P1, e2)"
    by (cases "aliasStep cwd pathsMap (skipAlias opts) importPath (parse ?R) P1") simp
  from Some have "newImportPartsOf cwd exists pathsMap opts filePath importPath = Some (P1, e1 @ e2)"
    using es al by (simp add: newImportPartsOf_def Let_def split: if_splits)
  then have "newImportPathOf cwd exists pathsMap opts filePath importPath = format P1"
    by (simp add: newImportPathOf_def)
  also have "format P1 = X @ CHR ''/'' # b'"
    using P1 X(1) by (auto simp: format_def split: if_splits)
  finally have new: "newImportPathOf cwd exists pathsMap opts filePath importPath = X @ CHR ''/'' # b'" .
  have idem: "extensionTarget exists (CHR ''/'' # joinSlash (zs @ [b'])) = CHR ''/'' # joinSlash (zs @ [b'])"
    using extensionTarget_idem [OF zs b, of exists] unfolding R [symmetric] T by simp
  have hd': "hd (X @ CHR ''/'' # b') \<noteq> CHR ''/''" using X by (cases X) auto
  have na: "\<not> isRelativeImport (X @ CHR ''/'' # b') \<or> skipAlias opts \<or>
      getAliasPathParts cwd (parse (CHR ''/'' # joinSlash (zs @ [b']))) pathsMap = None"
    using noalias isRelativeImport_last_segment [OF X(1), of b b'] unfolding p [symmetric] T
    by auto
  show ?thesis
    unfolding new
    by (rule rewrite_fixed_on_target [OF zs b' rz [OF b'] idem _ hd' na]) blast
qed

lemma stableRewrite_extension:
  assumes "cwd \<noteq> []" and "hd cwd = CHR ''/''"
    and "\<forall>(k, d) \<in> set pathsMap. endsWith k ''/''"
    and "normalSegment (last (splitSlash importPath))"
    and "hd importPath \<noteq> CHR ''/''"
    and "\<not> isRelativeImport importPath \<or> skipAlias opts \<or>
      getAliasPathParts cwd (parse (resolveImportPath cwd importPath filePath pathsMap)) pathsMap = None \<and>
      getAliasPathParts cwd
        (parse (extensionTarget exists (resolveImportPath cwd importPath filePath pathsMap))) pathsMap = None"
    and "plainSpecifier (newImportPathOf cwd exists pathsMap opts filePath importPath)"
  shows "stableRewrite cwd exists pathsMap opts filePath importPath"
  unfolding stableRewrite_def Let_def
  using extension_rewrite_stable [OF assms(1-6)] assms(7) by blast

section \<open>The fixed point of the rewrite pass\<close>




end
